theory Spec2Isabelle
  imports Complex_Main "HOL-Library.Word" "HOL-Library.Sublist"
begin

section \<open>Strings of the host language\<close>

text \<open>
  A JavaScript string is a sequence of 16-bit code units. String literals of the source
  are ASCII (apart from the em-dash placeholder, written by its code unit), so they are
  embedded from HOL string literals by \<open>js\<close>.
\<close>

type_synonym code_unit = "16 word"
type_synonym jsstring = "code_unit list"

definition js :: "string \<Rightarrow> jsstring" where
  "js s = map (\<lambda>c. of_nat (of_char c)) s"

text \<open>
  \<open>String.prototype.trim\<close> strips WhiteSpace and LineTerminator code points from both
  ends: TAB, LF, VT, FF, CR, SP, NBSP, U+1680, U+2000..U+200A, U+2028, U+2029, U+202F,
  U+205F, U+3000 and U+FEFF. All of them are single code units.
\<close>

definition is_space :: "code_unit \<Rightarrow> bool" where
  "is_space c = (c \<in> {0x09, 0x0A, 0x0B, 0x0C, 0x0D, 0x20, 0xA0, 0x1680,
                      0x2000, 0x2001, 0x2002, 0x2003, 0x2004, 0x2005, 0x2006, 0x2007,
                      0x2008, 0x2009, 0x200A, 0x2028, 0x2029, 0x202F, 0x205F, 0x3000,
                      0xFEFF})"

definition trim :: "jsstring \<Rightarrow> jsstring" where
  "trim s = rev (dropWhile is_space (rev (dropWhile is_space s)))"

text \<open>Truthiness of a string: every string but the empty one.\<close>

definition truthy :: "jsstring \<Rightarrow> bool" where
  "truthy s = (s \<noteq> [])"

text \<open>
  \<open>x || d\<close> where \<open>x\<close> is a string that may be \<open>undefined\<close> and \<open>d\<close> is a string:
  \<open>d\<close> when \<open>x\<close> is \<open>undefined\<close> or empty, \<open>x\<close> otherwise.
\<close>

definition or_default :: "jsstring option \<Rightarrow> jsstring \<Rightarrow> jsstring" where
  "or_default x d = (case x of None \<Rightarrow> d | Some s \<Rightarrow> if truthy s then s else d)"

text \<open>
  \<open>a || b\<close> where both sides are a string or \<open>undefined\<close>: the left side when it is
  truthy, the right side otherwise.
\<close>

definition or_else :: "jsstring option \<Rightarrow> jsstring option \<Rightarrow> jsstring option" where
  "or_else a b = (case a of None \<Rightarrow> b | Some s \<Rightarrow> if truthy s then Some s else b)"


section \<open>Data model (App.tsx, lines 8 to 22)\<close>

record Source =
  src_id :: jsstring
  key :: jsstring

record BackendOut =
  answer :: "jsstring option"
  data_sources :: "Source list option"
  data_error :: "jsstring option"

datatype role_tag = user | assistant

text \<open>
  \<open>ChatMsg\<close> is the tagged union of the source; an optional property is an \<open>option\<close>
  (\<open>None\<close> for \<open>undefined\<close> or absent). Timestamps come from \<open>Date.now()\<close>, which
  returns an integer number of milliseconds.
\<close>

datatype ChatMsg =
    User (msg_id: jsstring) (msg_text: jsstring) (ts: int)
  | Assistant (msg_id: jsstring) (msg_text: jsstring) (ts: int)
      (sources: "Source list option") (error: "jsstring option")

fun role :: "ChatMsg \<Rightarrow> role_tag" where
  "role (User _ _ _) = user"
| "role (Assistant _ _ _ _ _) = assistant"


section \<open>Component state and the request controller (App.tsx, lines 25 to 124)\<close>

text \<open>
  The body of every POST to \<open>${FN_URL}/rag\<close> is \<open>{question: prompt.trim()}\<close>; the log of
  requests issued so far makes the network effect observable.
\<close>

record request =
  question :: jsstring

record app_state =
  input :: jsstring
  msgs :: "ChatMsg list"
  loading :: bool
  requests :: "request list"

text \<open>
  How the awaited \<open>fetch\<close> and \<open>r.json()\<close> end: with the parsed body, or by throwing
  (the network call rejects, the body is not JSON, or the body is \<open>null\<close> and reading
  \<open>data.answer\<close> throws). \<open>Failed m\<close> carries \<open>err?.message\<close>, \<open>None\<close> when the thrown
  value has none.
\<close>

datatype fetch_outcome = Resolved BackendOut | Failed "jsstring option"

text \<open>
  \<open>sendPrompt\<close> runs in two phases around its \<open>await\<close>. The identifier and the timestamp
  of each message are read from \<open>crypto.randomUUID()\<close> and \<open>Date.now()\<close>; they are
  inputs of the model. The state updates are functional (\<open>setMsgs((m) => [...m, x])\<close>), so
  each phase acts on the state current at its time.
\<close>

definition sendPrompt_begin :: "jsstring \<Rightarrow> int \<Rightarrow> jsstring \<Rightarrow> app_state \<Rightarrow> app_state" where
  "sendPrompt_begin uid now prompt st =
     st\<lparr>msgs := msgs st @ [User uid prompt now],
        loading := True,
        requests := requests st @ [\<lparr>question = trim prompt\<rparr>]\<rparr>"

definition asstMsg :: "jsstring \<Rightarrow> int \<Rightarrow> fetch_outcome \<Rightarrow> ChatMsg" where
  "asstMsg uid now out =
     (case out of
        Resolved data \<Rightarrow>
          Assistant uid (or_default (answer data) []) now (data_sources data) (data_error data)
      | Failed m \<Rightarrow>
          Assistant uid [] now None (Some (or_default m (js ''Network error''))))"

definition sendPrompt_end :: "jsstring \<Rightarrow> int \<Rightarrow> fetch_outcome \<Rightarrow> app_state \<Rightarrow> app_state" where
  "sendPrompt_end uid now out st =
     st\<lparr>msgs := msgs st @ [asstMsg uid now out], loading := False\<rparr>"

text \<open>A whole call with no other event between its two phases.\<close>

definition sendPrompt ::
  "jsstring \<Rightarrow> int \<Rightarrow> jsstring \<Rightarrow> jsstring \<Rightarrow> int \<Rightarrow> fetch_outcome \<Rightarrow> app_state \<Rightarrow> app_state" where
  "sendPrompt uid now prompt uid' now' out st =
     sendPrompt_end uid' now' out (sendPrompt_begin uid now prompt st)"

text \<open>The synchronous part of \<open>onSubmit\<close>: the guard, then the first phase of the call.\<close>

definition onSubmit :: "jsstring \<Rightarrow> int \<Rightarrow> app_state \<Rightarrow> app_state" where
  "onSubmit uid now st =
     (if \<not> truthy (trim (input st)) \<or> loading st then st
      else sendPrompt_begin uid now (trim (input st)) (st\<lparr>input := []\<rparr>))"

text \<open>The Enter key without Shift in the composer (\<open>onKeyDown\<close>).\<close>

definition onEnterKey :: "jsstring \<Rightarrow> int \<Rightarrow> app_state \<Rightarrow> app_state" where
  "onEnterKey uid now st =
     (if truthy (trim (input st)) \<and> \<not> loading st then onSubmit uid now st else st)"

text \<open>
  \<open>regenerate\<close>: the guard, the reverse scan for the last user message, the removal of a
  trailing assistant message (\<open>undefined?.role\<close> on the empty sequence removes nothing),
  then the first phase of \<open>sendPrompt\<close>.
\<close>

definition pop_trailing_assistant :: "ChatMsg list \<Rightarrow> ChatMsg list" where
  "pop_trailing_assistant m =
     (if m \<noteq> [] \<and> role (last m) = assistant then butlast m else m)"

definition regenerate :: "jsstring \<Rightarrow> int \<Rightarrow> app_state \<Rightarrow> app_state" where
  "regenerate uid now st =
     (if loading st then st
      else case find (\<lambda>m. role m = user) (rev (msgs st)) of
             None \<Rightarrow> st
           | Some lastUser \<Rightarrow>
               sendPrompt_begin uid now (msg_text lastUser)
                 (st\<lparr>loading := True, msgs := pop_trailing_assistant (msgs st)\<rparr>))"


section \<open>Presentation of an assistant message (App.tsx, lines 36 to 39 and 229 to 286)\<close>

text \<open>
  The test \<open>/^https?:\/\//i\<close>. Without the unicode flag, case-insensitive matching
  never lets a code unit above 127 match an ASCII letter, so a pattern letter matches
  exactly its lower-case and upper-case ASCII forms.
\<close>

definition ci_eq :: "char \<Rightarrow> code_unit \<Rightarrow> bool" where
  "ci_eq p c = (c = of_nat (of_char p) \<or> c = of_nat (of_char p) - 32)"

fun match_ci :: "string \<Rightarrow> jsstring \<Rightarrow> jsstring option" where
  "match_ci [] s = Some s"
| "match_ci (p # ps) [] = None"
| "match_ci (p # ps) (c # s) = (if ci_eq p c then match_ci ps s else None)"

fun match_lit :: "string \<Rightarrow> jsstring \<Rightarrow> jsstring option" where
  "match_lit [] s = Some s"
| "match_lit (p # ps) [] = None"
| "match_lit (p # ps) (c # s) = (if c = of_nat (of_char p) then match_lit ps s else None)"

definition http_test :: "jsstring \<Rightarrow> bool" where
  "http_test s =
     (case match_ci ''http'' s of
        None \<Rightarrow> False
      | Some r \<Rightarrow>
          (case match_ci ''s'' r of
             Some r' \<Rightarrow> match_lit ''://'' r' \<noteq> None \<or> match_lit ''://'' r \<noteq> None
           | None \<Rightarrow> match_lit ''://'' r \<noteq> None))"

definition toHref :: "jsstring \<Rightarrow> jsstring option" where
  "toHref s = (if http_test s then Some s else None)"

text \<open>
  One list item of the sources block: an anchor with \<open>href\<close> and the id as its text, or
  the id as inline code; the key follows in both cases.
\<close>

datatype source_item =
    Anchor (href: jsstring) (anchor_text: jsstring) (key_text: jsstring)
  | CodeChip (chip_text: jsstring) (key_text: jsstring)

definition source_li :: "Source \<Rightarrow> source_item" where
  "source_li s =
     (case or_else (toHref (key s)) (toHref (src_id s)) of
        Some h \<Rightarrow> if truthy h then Anchor h (src_id s) (key s) else CodeChip (src_id s) (key s)
      | None \<Rightarrow> CodeChip (src_id s) (key s))"

text \<open>
  The bubble: the error line, or the answer text (the em-dash U+2014 for an empty text),
  the sources block when there is at least one source, and the timestamp (its locale
  formatting is left out).
\<close>

datatype bubble =
    ErrorBubble jsstring
  | AnswerBubble (bubble_text: jsstring) (bubble_sources: "source_item list option")
      (bubble_ts: int)

definition answer_bubble :: "jsstring \<Rightarrow> int \<Rightarrow> Source list option \<Rightarrow> bubble" where
  "answer_bubble txt t srcs =
     AnswerBubble (if truthy txt then txt else [0x2014])
       (case srcs of
          None \<Rightarrow> None
        | Some ss \<Rightarrow> if length ss \<noteq> 0 then Some (map source_li ss) else None)
       t"

definition AssistantBubble ::
  "jsstring \<Rightarrow> int \<Rightarrow> Source list option \<Rightarrow> jsstring option \<Rightarrow> bubble" where
  "AssistantBubble txt t srcs err =
     (case err of
        None \<Rightarrow> answer_bubble txt t srcs
      | Some e \<Rightarrow> if truthy e then ErrorBubble (js ''Error: '' @ e) else answer_bubble txt t srcs)"

text \<open>The bubble of a message of the conversation (\<open>msgs.map\<close> in the chat area).\<close>

fun render_assistant :: "ChatMsg \<Rightarrow> bubble option" where
  "render_assistant (Assistant i txt t srcs err) = Some (AssistantBubble txt t srcs err)"
| "render_assistant (User i txt t) = None"

text \<open>
  The spec's wording of the link test, to compare with \<open>http_test\<close>: the string, with its
  ASCII capitals lowered, starts with \<open>http://\<close> or with \<open>https://\<close>.
\<close>

definition ascii_lower :: "code_unit \<Rightarrow> code_unit" where
  "ascii_lower c = (if 0x41 \<le> c \<and> c \<le> 0x5A then c + 32 else c)"

definition absolute_http_url :: "jsstring \<Rightarrow> bool" where
  "absolute_http_url s =
     (prefix (js ''http://'') (map ascii_lower s) \<or> prefix (js ''https://'') (map ascii_lower s))"


section \<open>Persistence (App.tsx, lines 22 to 33 and 41 to 44)\<close>

text \<open>
  The conversation is kept in local storage as \<open>JSON.stringify(msgs)\<close> and read back
  with \<open>JSON.parse(raw) as ChatMsg[]\<close>. Both functions belong to the host language;
  they are embedded here as ECMA-262 defines them, on sequences of code units.
\<close>

subsection \<open>JSON values\<close>

text \<open>
  The values of the JSON data model. An object is the list of its members in order.
  The type of numbers is a parameter: the numbers of a conversation are integers
  (\<open>Date.now()\<close>), while a JSON text may denote any decimal number.
\<close>

datatype 'n json =
    JNull
  | JBool bool
  | JNum 'n
  | JStr jsstring
  | JArr "'n json list"
  | JObj "(jsstring \<times> 'n json) list"

subsection \<open>JSON.stringify\<close>

text \<open>
  \<open>QuoteJSONString\<close>: the two-character escapes for backspace, tab, line feed, form feed,
  carriage return, the double quote and the backslash; the u-escape with four lower-case
  hexadecimal digits for the other code units below U+0020 and for a surrogate that is
  not part of a pair; every other code unit, and every surrogate pair, as it is.
\<close>

definition hex_digit :: "nat \<Rightarrow> code_unit" where
  "hex_digit n = (if n < 10 then of_nat (48 + n) else of_nat (87 + n))"

definition unicode_escape :: "code_unit \<Rightarrow> jsstring" where
  "unicode_escape c =
     [0x5C, 0x75, hex_digit (unat c div 4096), hex_digit (unat c div 256 mod 16),
      hex_digit (unat c div 16 mod 16), hex_digit (unat c mod 16)]"

definition is_high :: "code_unit \<Rightarrow> bool" where
  "is_high c = (0xD800 \<le> c \<and> c \<le> 0xDBFF)"

definition is_low :: "code_unit \<Rightarrow> bool" where
  "is_low c = (0xDC00 \<le> c \<and> c \<le> 0xDFFF)"

fun quote_chars :: "jsstring \<Rightarrow> jsstring" where
  "quote_chars [] = []"
| "quote_chars (c # s) =
     (if c = 0x08 then [0x5C, 0x62] @ quote_chars s
      else if c = 0x09 then [0x5C, 0x74] @ quote_chars s
      else if c = 0x0A then [0x5C, 0x6E] @ quote_chars s
      else if c = 0x0C then [0x5C, 0x66] @ quote_chars s
      else if c = 0x0D then [0x5C, 0x72] @ quote_chars s
      else if c = 0x22 then [0x5C, 0x22] @ quote_chars s
      else if c = 0x5C then [0x5C, 0x5C] @ quote_chars s
      else if c < 0x20 then unicode_escape c @ quote_chars s
      else if is_high c then
        (case s of
           [] \<Rightarrow> unicode_escape c
         | d # s' \<Rightarrow> if is_low d then c # d # quote_chars s'
                    else unicode_escape c @ quote_chars s)
      else if is_low c then unicode_escape c @ quote_chars s
      else c # quote_chars s)"

definition QuoteJSONString :: "jsstring \<Rightarrow> jsstring" where
  "QuoteJSONString s = 0x22 # quote_chars s @ [0x22]"

text \<open>
  \<open>Number::toString\<close> of an integer is its decimal digits, with a minus sign when it is
  negative (the integers of the model are timestamps, far below the 10^21 from which the
  host switches to the exponent notation).
\<close>

definition digit_char :: "nat \<Rightarrow> code_unit" where
  "digit_char d = of_nat (48 + d)"

fun show_nat :: "nat \<Rightarrow> jsstring" where
  "show_nat n = (if n < 10 then [digit_char n]
                 else show_nat (n div 10) @ [digit_char (n mod 10)])"

declare show_nat.simps [simp del]

definition show_int :: "int \<Rightarrow> jsstring" where
  "show_int n = (if n < 0 then 0x2D # show_nat (nat (- n)) else show_nat (nat n))"

text \<open>
  \<open>SerializeJSONProperty\<close>, \<open>SerializeJSONArray\<close> and \<open>SerializeJSONObject\<close> without
  indentation: elements and members are separated by a comma, a member is its quoted key,
  a colon and its value.
\<close>

fun JSON_stringify :: "int json \<Rightarrow> jsstring"
  and stringify_elements :: "int json list \<Rightarrow> jsstring"
  and stringify_members :: "(jsstring \<times> int json) list \<Rightarrow> jsstring" where
  "JSON_stringify JNull = js ''null''"
| "JSON_stringify (JBool b) = (if b then js ''true'' else js ''false'')"
| "JSON_stringify (JNum n) = show_int n"
| "JSON_stringify (JStr s) = QuoteJSONString s"
| "JSON_stringify (JArr vs) = 0x5B # stringify_elements vs @ [0x5D]"
| "JSON_stringify (JObj ms) = 0x7B # stringify_members ms @ [0x7D]"
| "stringify_elements [] = []"
| "stringify_elements [v] = JSON_stringify v"
| "stringify_elements (v # w # vs) = JSON_stringify v @ 0x2C # stringify_elements (w # vs)"
| "stringify_members [] = []"
| "stringify_members [(k, v)] = QuoteJSONString k @ 0x3A # JSON_stringify v"
| "stringify_members ((k, v) # m # ms) =
     QuoteJSONString k @ 0x3A # JSON_stringify v @ 0x2C # stringify_members (m # ms)"

subsection \<open>JSON.parse\<close>

text \<open>
  The JSON grammar: white space is space, tab, line feed and carriage return; a string
  holds any code unit from U+0020 on except the double quote and the backslash, and the
  escapes (a backslash before a double quote, a backslash, a slash, b, f, n, r, t, or u
  with four hexadecimal digits); a number is an optional minus sign, an
  integer part without a leading zero, an optional fraction and an optional exponent. The
  value of a number is the exact decimal number (the rounding to a double is left out).
  Every parser returns the value it read and the rest of the input, or \<open>None\<close> on a
  syntax error.
\<close>

definition is_json_ws :: "code_unit \<Rightarrow> bool" where
  "is_json_ws c = (c = 0x20 \<or> c = 0x09 \<or> c = 0x0A \<or> c = 0x0D)"

definition skip_ws :: "jsstring \<Rightarrow> jsstring" where
  "skip_ws s = dropWhile is_json_ws s"

definition hex_val :: "code_unit \<Rightarrow> nat option" where
  "hex_val c =
     (if 0x30 \<le> c \<and> c \<le> 0x39 then Some (unat c - 48)
      else if 0x61 \<le> c \<and> c \<le> 0x66 then Some (unat c - 87)
      else if 0x41 \<le> c \<and> c \<le> 0x46 then Some (unat c - 55)
      else None)"

definition hex4 :: "code_unit \<Rightarrow> code_unit \<Rightarrow> code_unit \<Rightarrow> code_unit \<Rightarrow> code_unit option" where
  "hex4 h1 h2 h3 h4 =
     (case (hex_val h1, hex_val h2, hex_val h3, hex_val h4) of
        (Some a, Some b, Some c, Some d) \<Rightarrow> Some (of_nat (((a * 16 + b) * 16 + c) * 16 + d))
      | _ \<Rightarrow> None)"

definition unescape :: "code_unit \<Rightarrow> code_unit option" where
  "unescape e =
     (if e = 0x22 then Some 0x22
      else if e = 0x5C then Some 0x5C
      else if e = 0x2F then Some 0x2F
      else if e = 0x62 then Some 0x08
      else if e = 0x66 then Some 0x0C
      else if e = 0x6E then Some 0x0A
      else if e = 0x72 then Some 0x0D
      else if e = 0x74 then Some 0x09
      else None)"

definition cons_result :: "'a \<Rightarrow> ('a list \<times> 'b) option \<Rightarrow> ('a list \<times> 'b) option" where
  "cons_result x r = (case r of None \<Rightarrow> None | Some (xs, rest) \<Rightarrow> Some (x # xs, rest))"

fun parse_chars :: "jsstring \<Rightarrow> (jsstring \<times> jsstring) option" where
  "parse_chars [] = None"
| "parse_chars (c # s) =
     (if c = 0x22 then Some ([], s)
      else if c = 0x5C then
        (case s of
           [] \<Rightarrow> None
         | e # s' \<Rightarrow>
             if e = 0x75 then
               (case s' of
                  h1 # h2 # h3 # h4 # s'' \<Rightarrow>
                    (case hex4 h1 h2 h3 h4 of
                       None \<Rightarrow> None
                     | Some u \<Rightarrow> cons_result u (parse_chars s''))
                | _ \<Rightarrow> None)
             else
               (case unescape e of
                  None \<Rightarrow> None
                | Some u \<Rightarrow> cons_result u (parse_chars s')))
      else if c < 0x20 then None
      else cons_result c (parse_chars s))"

definition is_digit :: "code_unit \<Rightarrow> bool" where
  "is_digit c = (0x30 \<le> c \<and> c \<le> 0x39)"

definition digits_val :: "jsstring \<Rightarrow> nat" where
  "digits_val ds = foldl (\<lambda>a d. 10 * a + (unat d - 48)) 0 ds"

definition parse_int_part :: "jsstring \<Rightarrow> (nat \<times> jsstring) option" where
  "parse_int_part s =
     (case s of
        [] \<Rightarrow> None
      | c # r \<Rightarrow>
          if c = 0x30 then Some (0, r)
          else if is_digit c then Some (digits_val (takeWhile is_digit s), dropWhile is_digit s)
          else None)"

definition parse_frac :: "jsstring \<Rightarrow> (rat \<times> jsstring) option" where
  "parse_frac s =
     (case s of
        [] \<Rightarrow> Some (0, s)
      | c # r \<Rightarrow>
          if c = 0x2E then
            (if takeWhile is_digit r = [] then None
             else Some (of_nat (digits_val (takeWhile is_digit r))
                          / 10 ^ length (takeWhile is_digit r),
                        dropWhile is_digit r))
          else Some (0, s))"

definition parse_exp_digits :: "bool \<Rightarrow> jsstring \<Rightarrow> (rat \<times> jsstring) option" where
  "parse_exp_digits neg s =
     (if takeWhile is_digit s = [] then None
      else Some (if neg then 1 / 10 ^ digits_val (takeWhile is_digit s)
                 else 10 ^ digits_val (takeWhile is_digit s),
                 dropWhile is_digit s))"

definition parse_exp :: "jsstring \<Rightarrow> (rat \<times> jsstring) option" where
  "parse_exp s =
     (case s of
        [] \<Rightarrow> Some (1, s)
      | c # r \<Rightarrow>
          if c = 0x65 \<or> c = 0x45 then
            (case r of
               [] \<Rightarrow> None
             | d # r' \<Rightarrow>
                 if d = 0x2B then parse_exp_digits False r'
                 else if d = 0x2D then parse_exp_digits True r'
                 else parse_exp_digits False r)
          else Some (1, s))"

definition parse_unsigned :: "jsstring \<Rightarrow> (rat \<times> jsstring) option" where
  "parse_unsigned s =
     (case parse_int_part s of
        None \<Rightarrow> None
      | Some (i, s2) \<Rightarrow>
          (case parse_frac s2 of
             None \<Rightarrow> None
           | Some (f, s3) \<Rightarrow>
               (case parse_exp s3 of
                  None \<Rightarrow> None
                | Some (e, s4) \<Rightarrow> Some ((of_nat i + f) * e, s4))))"

definition parse_number :: "jsstring \<Rightarrow> (rat \<times> jsstring) option" where
  "parse_number s =
     (case s of
        [] \<Rightarrow> None
      | c # r \<Rightarrow>
          if c = 0x2D then
            (case parse_unsigned r of None \<Rightarrow> None | Some (x, r') \<Rightarrow> Some (- x, r'))
          else parse_unsigned s)"

definition with_value :: "'a \<Rightarrow> 'b option \<Rightarrow> ('a \<times> 'b) option" where
  "with_value v r = (case r of None \<Rightarrow> None | Some rest \<Rightarrow> Some (v, rest))"

definition map_value :: "('a \<Rightarrow> 'c) \<Rightarrow> ('a \<times> 'b) option \<Rightarrow> ('c \<times> 'b) option" where
  "map_value f r = (case r of None \<Rightarrow> None | Some (x, rest) \<Rightarrow> Some (f x, rest))"

text \<open>
  Values, array elements and object members are mutually recursive; the recursion is
  bounded by a fuel argument. Every call consumes input, so a fuel of twice the length of
  the text and two is never exhausted (\<open>parse_text_fuel\<close> below).
\<close>

fun parse_value :: "nat \<Rightarrow> jsstring \<Rightarrow> (rat json \<times> jsstring) option"
  and parse_elements :: "nat \<Rightarrow> jsstring \<Rightarrow> (rat json list \<times> jsstring) option"
  and parse_members :: "nat \<Rightarrow> jsstring \<Rightarrow> ((jsstring \<times> rat json) list \<times> jsstring) option" where
  "parse_value 0 s = None"
| "parse_value (Suc n) s =
     (case skip_ws s of
        [] \<Rightarrow> None
      | c # r \<Rightarrow>
          if c = 0x7B then
            (case skip_ws r of
               [] \<Rightarrow> None
             | d # r' \<Rightarrow> if d = 0x7D then Some (JObj [], r')
                         else map_value JObj (parse_members n (d # r')))
          else if c = 0x5B then
            (case skip_ws r of
               [] \<Rightarrow> None
             | d # r' \<Rightarrow> if d = 0x5D then Some (JArr [], r')
                         else map_value JArr (parse_elements n (d # r')))
          else if c = 0x22 then map_value JStr (parse_chars r)
          else if c = 0x74 then with_value (JBool True) (match_lit ''rue'' r)
          else if c = 0x66 then with_value (JBool False) (match_lit ''alse'' r)
          else if c = 0x6E then with_value JNull (match_lit ''ull'' r)
          else map_value JNum (parse_number (c # r)))"
| "parse_elements 0 s = None"
| "parse_elements (Suc n) s =
     (case parse_value n s of
        None \<Rightarrow> None
      | Some (v, r) \<Rightarrow>
          (case skip_ws r of
             [] \<Rightarrow> None
           | c # r' \<Rightarrow>
               if c = 0x2C then cons_result v (parse_elements n r')
               else if c = 0x5D then Some ([v], r')
               else None))"
| "parse_members 0 s = None"
| "parse_members (Suc n) s =
     (case skip_ws s of
        [] \<Rightarrow> None
      | q # r \<Rightarrow>
          if q \<noteq> 0x22 then None
          else
            (case parse_chars r of
               None \<Rightarrow> None
             | Some (k, r1) \<Rightarrow>
                 (case skip_ws r1 of
                    [] \<Rightarrow> None
                  | c # r2 \<Rightarrow>
                      if c \<noteq> 0x3A then None
                      else
                        (case parse_value n r2 of
                           None \<Rightarrow> None
                         | Some (v, r3) \<Rightarrow>
                             (case skip_ws r3 of
                                [] \<Rightarrow> None
                              | c' # r4 \<Rightarrow>
                                  if c' = 0x2C then cons_result (k, v) (parse_members n r4)
                                  else if c' = 0x7D then Some ([(k, v)], r4)
                                  else None)))))"

datatype js_error = SyntaxError

definition parse_text :: "nat \<Rightarrow> jsstring \<Rightarrow> js_error + rat json" where
  "parse_text n text =
     (case parse_value n text of
        None \<Rightarrow> Inl SyntaxError
      | Some (v, rest) \<Rightarrow> if skip_ws rest = [] then Inr v else Inl SyntaxError)"

definition JSON_parse :: "jsstring \<Rightarrow> js_error + rat json" where
  "JSON_parse text = parse_text (2 * length text + 2) text"

subsection \<open>A conversation as a JSON value\<close>

text \<open>
  The own properties of the message objects, in the order the object literals of
  \<open>sendPrompt\<close> create them; a property whose value is \<open>undefined\<close> is skipped by
  \<open>JSON.stringify\<close>.
\<close>

definition json_of_Source :: "Source \<Rightarrow> int json" where
  "json_of_Source s = JObj [(js ''id'', JStr (src_id s)), (js ''key'', JStr (key s))]"

fun json_of_msg :: "ChatMsg \<Rightarrow> int json" where
  "json_of_msg (User i txt t) =
     JObj [(js ''id'', JStr i), (js ''role'', JStr (js ''user'')), (js ''text'', JStr txt),
           (js ''ts'', JNum t)]"
| "json_of_msg (Assistant i txt t srcs err) =
     JObj ([(js ''id'', JStr i), (js ''role'', JStr (js ''assistant'')), (js ''text'', JStr txt),
            (js ''ts'', JNum t)]
           @ (case srcs of None \<Rightarrow> []
              | Some ss \<Rightarrow> [(js ''sources'', JArr (map json_of_Source ss))])
           @ (case err of None \<Rightarrow> [] | Some e \<Rightarrow> [(js ''error'', JStr e)]))"

definition json_of_msgs :: "ChatMsg list \<Rightarrow> int json" where
  "json_of_msgs ms = JArr (map json_of_msg ms)"

text \<open>
  The type assertion \<open>as ChatMsg[]\<close> does nothing at run time. \<open>as_ChatMsgs\<close> reads a
  parsed value at the type asserted, and is \<open>None\<close> on a value that does not have it. A
  property read yields the last member with that key, as \<open>JSON.parse\<close> keeps the last of
  duplicate keys.
\<close>

definition property :: "(jsstring \<times> 'a) list \<Rightarrow> string \<Rightarrow> 'a option" where
  "property ms k = map_of (rev ms) (js k)"

definition as_string :: "rat json option \<Rightarrow> jsstring option" where
  "as_string v = (case v of Some (JStr s) \<Rightarrow> Some s | _ \<Rightarrow> None)"

definition as_int :: "rat json option \<Rightarrow> int option" where
  "as_int v = (case v of Some (JNum r) \<Rightarrow> if of_int \<lfloor>r\<rfloor> = r then Some \<lfloor>r\<rfloor> else None
               | _ \<Rightarrow> None)"

definition as_Source :: "rat json \<Rightarrow> Source option" where
  "as_Source v =
     (case v of
        JObj ms \<Rightarrow>
          (case (as_string (property ms ''id''), as_string (property ms ''key'')) of
             (Some i, Some k) \<Rightarrow> Some \<lparr>src_id = i, key = k\<rparr>
           | _ \<Rightarrow> None)
      | _ \<Rightarrow> None)"

definition as_sources :: "rat json option \<Rightarrow> Source list option option" where
  "as_sources v =
     (case v of
        None \<Rightarrow> Some None
      | Some (JArr vs) \<Rightarrow> map_option Some (those (map as_Source vs))
      | Some _ \<Rightarrow> None)"

definition as_error :: "rat json option \<Rightarrow> jsstring option option" where
  "as_error v = (case v of None \<Rightarrow> Some None | Some (JStr e) \<Rightarrow> Some (Some e) | Some _ \<Rightarrow> None)"

definition as_ChatMsg :: "rat json \<Rightarrow> ChatMsg option" where
  "as_ChatMsg v =
     (case v of
        JObj ms \<Rightarrow>
          (case (as_string (property ms ''id''), as_string (property ms ''role''),
                 as_string (property ms ''text''), as_int (property ms ''ts'')) of
             (Some i, Some r, Some txt, Some t) \<Rightarrow>
               if r = js ''user'' then Some (User i txt t)
               else if r = js ''assistant'' then
                 (case (as_sources (property ms ''sources''), as_error (property ms ''error'')) of
                    (Some srcs, Some err) \<Rightarrow> Some (Assistant i txt t srcs err)
                  | _ \<Rightarrow> None)
               else None
           | _ \<Rightarrow> None)
      | _ \<Rightarrow> None)"

definition as_ChatMsgs :: "rat json \<Rightarrow> ChatMsg list option" where
  "as_ChatMsgs v = (case v of JArr vs \<Rightarrow> those (map as_ChatMsg vs) | _ \<Rightarrow> None)"

subsection \<open>Local storage\<close>

type_synonym storage = "jsstring \<Rightarrow> jsstring option"

definition LS_KEY :: jsstring where
  "LS_KEY = js ''siliconlabs_chat_history_v1''"

text \<open>
  The initializer of \<open>msgs\<close>: the body of its \<open>try\<close> (\<open>getItem\<close> yields \<open>null\<close> for an
  absent entry, and \<open>null\<close> and the empty string are falsy), then the \<open>catch\<close> that turns
  every exception into the empty array.
\<close>

definition load_try :: "storage \<Rightarrow> js_error + rat json" where
  "load_try ls =
     (case ls LS_KEY of
        None \<Rightarrow> Inr (JArr [])
      | Some raw \<Rightarrow> if truthy raw then JSON_parse raw else Inr (JArr []))"

definition load :: "storage \<Rightarrow> rat json" where
  "load ls = (case load_try ls of Inl e \<Rightarrow> JArr [] | Inr v \<Rightarrow> v)"

definition initial_msgs :: "storage \<Rightarrow> ChatMsg list option" where
  "initial_msgs ls = as_ChatMsgs (load ls)"

text \<open>The effect that runs whenever \<open>msgs\<close> changes.\<close>

definition persist :: "ChatMsg list \<Rightarrow> storage \<Rightarrow> storage" where
  "persist ms ls = ls(LS_KEY \<mapsto> JSON_stringify (json_of_msgs ms))"

subsection \<open>Predicates used in the proofs\<close>

text \<open>
  What may follow a number in a JSON text that \<open>JSON.stringify\<close> wrote: the end of the
  text, a comma, or a closing bracket or brace. None of them continues a number.
\<close>

definition num_stop :: "jsstring \<Rightarrow> bool" where
  "num_stop rest = (case rest of [] \<Rightarrow> True
     | c # _ \<Rightarrow> \<not> is_digit c \<and> c \<noteq> 0x2E \<and> c \<noteq> 0x65 \<and> c \<noteq> 0x45)"

definition delim :: "jsstring \<Rightarrow> bool" where
  "delim rest = (case rest of [] \<Rightarrow> True | c # _ \<Rightarrow> c = 0x2C \<or> c = 0x5D \<or> c = 0x7D)"



section \<open>Example states\<close>

definition u1 :: ChatMsg where
  "u1 = User (js ''m1'') (js ''What is X?'') 1700000000000"

definition a1 :: ChatMsg where
  "a1 = Assistant (js ''m2'') (js ''X is Y.'') 1700000000500
          (Some [\<lparr>src_id = js ''doc1'', key = js ''https://example.com/doc1''\<rparr>]) None"

definition st_blank :: app_state where
  "st_blank = \<lparr>input = [0x20, 0x09, 0x0A], msgs = [u1, a1], loading = False, requests = []\<rparr>"

definition st_answered :: app_state where
  "st_answered = \<lparr>input = [], msgs = [u1, a1], loading = False, requests = []\<rparr>"

definition st_only_assistant :: app_state where
  "st_only_assistant = \<lparr>input = [], msgs = [a1], loading = False, requests = []\<rparr>"

definition src_url_key :: Source where
  "src_url_key = \<lparr>src_id = js ''doc1'', key = js ''HTTPS://example.com/doc1''\<rparr>"

definition src_url_id :: Source where
  "src_url_id = \<lparr>src_id = js ''http://example.com/a'', key = js ''docs/a.pdf''\<rparr>"

definition src_plain :: Source where
  "src_plain = \<lparr>src_id = js ''doc3'', key = js ''s3/bucket/doc3.txt''\<rparr>"


text \<open>
  JSON texts of the examples are written with a backquote where the text has a double
  quote.
\<close>

definition json_text :: "string \<Rightarrow> jsstring" where
  "json_text s = map (\<lambda>c. if c = CHR ''`'' then 0x22 else of_nat (of_char c)) s"

definition ls_absent :: storage where
  "ls_absent = (\<lambda>k. None)"

definition ls_corrupt :: storage where
  "ls_corrupt = (\<lambda>k. if k = LS_KEY then Some (js ''[{'') else None)"

section \<open>The request controller\<close>

lemma role_asstMsg: "role (asstMsg uid now out) = assistant"
  by (cases out) (simp_all add: asstMsg_def)

lemma find_rev_last:
  "find P (rev xs) = (if filter P xs = [] then None else Some (last (filter P xs)))"
  by (induction xs rule: rev_induct) auto

text \<open>
  C1. A call to \<open>sendPrompt\<close> appends exactly one User message in its first phase, before
  the network call resolves, and exactly one Assistant message in its second phase,
  whatever the outcome (answer, backend error, network or parse failure). The second
  phase is stated for any state \<open>st'\<close> it finds when the call resolves; with no event in
  between, the conversation grows by exactly that pair. This holds for every prompt, and
  so for those that are non-empty after trimming.
\<close>

theorem sendPrompt_one_user_one_assistant:
  "msgs (sendPrompt_begin uid now prompt st) = msgs st @ [User uid prompt now]
   \<and> role (User uid prompt now) = user
   \<and> msgs (sendPrompt_end uid' now' out st') = msgs st' @ [asstMsg uid' now' out]
   \<and> role (asstMsg uid' now' out) = assistant
   \<and> msgs (sendPrompt uid now prompt uid' now' out st)
       = msgs st @ [User uid prompt now, asstMsg uid' now' out]
   \<and> length (filter (\<lambda>m. role m = user) (msgs (sendPrompt uid now prompt uid' now' out st)))
       = length (filter (\<lambda>m. role m = user) (msgs st)) + 1
   \<and> length (filter (\<lambda>m. role m = assistant) (msgs (sendPrompt uid now prompt uid' now' out st)))
       = length (filter (\<lambda>m. role m = assistant) (msgs st)) + 1"
  by (simp add: sendPrompt_def sendPrompt_begin_def sendPrompt_end_def role_asstMsg)

text \<open>
  C8. The first phase of \<open>sendPrompt\<close> enters Sending (\<open>loading\<close> is set); the second
  phase leaves Idle behind for every outcome and from every state, so Sending never
  outlives the call.
\<close>

theorem sendPrompt_returns_to_idle:
  "loading (sendPrompt_begin uid now prompt st) = True
   \<and> loading (sendPrompt_end uid' now' out st') = False
   \<and> loading (sendPrompt uid now prompt uid' now' out st) = False"
  by (simp add: sendPrompt_def sendPrompt_begin_def sendPrompt_end_def)

text \<open>
  C7. When the backend call fails (network or JSON parse), the message appended is an
  Assistant message with empty text, no sources, and an error that is the failure's
  description when there is a non-empty one and \<open>Network error\<close> otherwise; the error is
  never empty.
\<close>

theorem sendPrompt_failure_message:
  "msgs (sendPrompt_end uid now (Failed m) st) =
     msgs st @ [Assistant uid [] now None
        (Some (case m of None \<Rightarrow> js ''Network error''
                 | Some d \<Rightarrow> if d = [] then js ''Network error'' else d))]
   \<and> (case m of None \<Rightarrow> js ''Network error''
         | Some d \<Rightarrow> if d = [] then js ''Network error'' else d) \<noteq> []"
  by (cases m) (simp_all add: sendPrompt_end_def asstMsg_def or_default_def truthy_def js_def)

text \<open>
  C4. An input whose trimmed form is empty is rejected by \<open>onSubmit\<close>, and by the Enter
  key, before anything happens: the whole state (conversation, request log, input,
  controller) is unchanged, so no message is appended and no request is issued.
\<close>

theorem onSubmit_rejects_blank:
  "trim (input st) = [] \<Longrightarrow> onSubmit uid now st = st \<and> onEnterKey uid now st = st"
  by (simp add: onSubmit_def onEnterKey_def truthy_def)

theorem onSubmit_rejects_blank_witness:
  "trim (input st_blank) = []
   \<and> onSubmit (js ''id'') 5 st_blank = st_blank
   \<and> onEnterKey (js ''id'') 5 st_blank = st_blank
   \<and> msgs st_blank = [u1, a1] \<and> requests st_blank = []"
proof -
  have h: "trim (input st_blank) = []"
    by (simp add: st_blank_def trim_def is_space_def)
  from onSubmit_rejects_blank [OF h, of "js ''id''" 5] h show ?thesis
    by (simp add: st_blank_def)
qed

text \<open>
  C6. In a conversation with no User message \<open>regenerate\<close> changes nothing: messages,
  controller state and request log are those of the state it was called in.
\<close>

theorem regenerate_without_user_is_noop:
  "\<forall>m \<in> set (msgs st). role m \<noteq> user \<Longrightarrow> regenerate uid now st = st"
proof -
  assume "\<forall>m \<in> set (msgs st). role m \<noteq> user"
  then have "filter (\<lambda>m. role m = user) (msgs st) = []"
    by (simp add: filter_empty_conv)
  then have "find (\<lambda>m. role m = user) (rev (msgs st)) = None"
    by (simp add: find_rev_last)
  then show ?thesis
    by (simp add: regenerate_def)
qed

theorem regenerate_without_user_is_noop_witness:
  "regenerate (js ''id'') 7 st_only_assistant = st_only_assistant
   \<and> msgs st_only_assistant = [a1] \<and> role a1 = assistant
   \<and> requests (regenerate (js ''id'') 7 st_only_assistant) = []"
proof -
  have h: "\<forall>m \<in> set (msgs st_only_assistant). role m \<noteq> user"
    by (simp add: st_only_assistant_def a1_def)
  from regenerate_without_user_is_noop [OF h, of "js ''id''" 7] show ?thesis
    by (simp add: st_only_assistant_def a1_def)
qed

text \<open>\<open>regenerate\<close> is guarded by the controller state: while Sending it does nothing.\<close>

lemma regenerate_while_sending: "loading st \<Longrightarrow> regenerate uid now st = st"
  by (simp add: regenerate_def)

text \<open>
  C2. Under the precondition of \<open>regenerate\<close> (the controller is Idle and the
  conversation holds a User message): the conversation loses its last message exactly
  when that message is an Assistant message, and nothing when it is a User message; a
  new User message with the text of the most recent User message is appended, and the
  Assistant message of the call follows when it resolves.
\<close>

theorem regenerate_replaces_trailing_assistant:
  assumes idle: "\<not> loading st"
    and ex: "\<exists>m \<in> set (msgs st). role m = user"
  shows "msgs (regenerate uid now st) =
           (if role (last (msgs st)) = assistant then butlast (msgs st) else msgs st)
           @ [User uid (msg_text (last (filter (\<lambda>m. role m = user) (msgs st)))) now]
       \<and> msgs (sendPrompt_end uid' now' out (regenerate uid now st)) =
           (if role (last (msgs st)) = assistant then butlast (msgs st) else msgs st)
           @ [User uid (msg_text (last (filter (\<lambda>m. role m = user) (msgs st)))) now,
              asstMsg uid' now' out]
       \<and> role (asstMsg uid' now' out) = assistant
       \<and> (role (last (msgs st)) = user \<longrightarrow> pop_trailing_assistant (msgs st) = msgs st)
       \<and> (length (pop_trailing_assistant (msgs st)) + 1 = length (msgs st))
           = (role (last (msgs st)) = assistant)"
proof -
  from ex have ne: "msgs st \<noteq> []" by auto
  from ex have "filter (\<lambda>m. role m = user) (msgs st) \<noteq> []"
    by (simp add: filter_empty_conv)
  then have f: "find (\<lambda>m. role m = user) (rev (msgs st))
      = Some (last (filter (\<lambda>m. role m = user) (msgs st)))"
    by (simp add: find_rev_last)
  from ne have len: "0 < length (msgs st)" by simp
  show ?thesis
    using idle ne len
    by (simp add: regenerate_def f sendPrompt_begin_def sendPrompt_end_def
        pop_trailing_assistant_def role_asstMsg)
qed

theorem regenerate_replaces_trailing_assistant_witness:
  "\<not> loading st_answered
   \<and> msgs st_answered = [u1, a1]
   \<and> msgs (regenerate (js ''m3'') 9 st_answered) = [u1, User (js ''m3'') (js ''What is X?'') 9]
   \<and> msgs (sendPrompt_end (js ''m4'') 10 (Failed None) (regenerate (js ''m3'') 9 st_answered))
       = [u1, User (js ''m3'') (js ''What is X?'') 9,
          Assistant (js ''m4'') [] 10 None (Some (js ''Network error''))]"
proof -
  have idle: "\<not> loading st_answered"
    by (simp add: st_answered_def)
  have ex: "\<exists>m \<in> set (msgs st_answered). role m = user"
    by (simp add: st_answered_def u1_def)
  from regenerate_replaces_trailing_assistant [OF idle ex, of "js ''m3''" 9 "js ''m4''" 10 "Failed None"]
  show ?thesis
    by (simp add: st_answered_def u1_def a1_def asstMsg_def or_default_def)
qed


section \<open>Presentation\<close>

lemma ci_eq_lower: "p \<in> set ''https'' \<Longrightarrow> ci_eq p c = (of_nat (of_char p) = ascii_lower c)"
  unfolding ci_eq_def ascii_lower_def by (auto; unat_arith)

lemma lit_eq_lower:
  "p \<in> set ''://'' \<Longrightarrow> (c = of_nat (of_char p)) = (of_nat (of_char p) = ascii_lower c)"
  unfolding ascii_lower_def by (auto; unat_arith)

lemma match_ci_prefix:
  "set ps \<subseteq> set ''https'' \<Longrightarrow>
   match_ci ps s = (if prefix (js ps) (map ascii_lower s) then Some (drop (length ps) s) else None)"
proof (induction ps s rule: match_ci.induct)
  case (1 s)
  then show ?case by (simp add: js_def)
next
  case (2 p ps)
  then show ?case by (simp add: js_def)
next
  case (3 p ps c s)
  from 3 have p: "p \<in> set ''https''" and ps: "set ps \<subseteq> set ''https''" by auto
  show ?case
  proof (cases "ci_eq p c")
    case True
    with 3(1)[OF True ps] ci_eq_lower[OF p, of c] show ?thesis by (simp add: js_def)
  next
    case False
    with ci_eq_lower[OF p, of c] show ?thesis by (simp add: js_def)
  qed
qed

lemma match_lit_prefix:
  "set ps \<subseteq> set ''://'' \<Longrightarrow>
   match_lit ps s = (if prefix (js ps) (map ascii_lower s) then Some (drop (length ps) s) else None)"
proof (induction ps s rule: match_lit.induct)
  case (1 s)
  then show ?case by (simp add: js_def)
next
  case (2 p ps)
  then show ?case by (simp add: js_def)
next
  case (3 p ps c s)
  from 3 have p: "p \<in> set ''://''" and ps: "set ps \<subseteq> set ''://''" by auto
  show ?case
  proof (cases "c = of_nat (of_char p)")
    case True
    with 3(1)[OF True ps] lit_eq_lower[OF p, of c] show ?thesis by (simp add: js_def)
  next
    case False
    with lit_eq_lower[OF p, of c] show ?thesis by (simp add: js_def)
  qed
qed

lemma prefix_append_drop:
  "prefix (xs @ ys) zs = (prefix xs zs \<and> prefix ys (drop (length xs) zs))"
proof (induction xs arbitrary: zs)
  case Nil
  then show ?case by simp
next
  case (Cons x xs)
  then show ?case by (cases zs) simp_all
qed

text \<open>The regular expression test and the spec's wording agree on every string.\<close>

lemma http_test_iff: "http_test s = absolute_http_url s"
proof -
  let ?m = "map ascii_lower s"
  have a: "prefix (js ''http://'') ?m = (prefix (js ''http'') ?m \<and> prefix (js ''://'') (drop 4 ?m))"
    using prefix_append_drop[of "js ''http''" "js ''://''" ?m]
    by (simp add: js_def numeral_eq_Suc)
  have b: "prefix (js ''https://'') ?m =
      (prefix (js ''http'') ?m \<and> prefix (js ''s'') (drop 4 ?m) \<and> prefix (js ''://'') (drop 5 ?m))"
    using prefix_append_drop[of "js ''http''" "js ''s://''" ?m]
      prefix_append_drop[of "js ''s''" "js ''://''" "drop 4 ?m"]
    by (simp add: js_def numeral_eq_Suc)
  have c: "match_ci ''http'' s = (if prefix (js ''http'') ?m then Some (drop 4 s) else None)"
    using match_ci_prefix[of "''http''" s] by (simp add: numeral_eq_Suc)
  have d: "match_ci ''s'' (drop 4 s) =
      (if prefix (js ''s'') (drop 4 ?m) then Some (drop 5 s) else None)"
    using match_ci_prefix[of "''s''" "drop 4 s"] by (simp add: drop_map numeral_eq_Suc)
  have e: "\<And>k. match_lit ''://'' (drop k s) =
      (if prefix (js ''://'') (drop k ?m) then Some (drop 3 (drop k s)) else None)"
    using match_lit_prefix[of "''://''"] by (simp add: drop_map numeral_eq_Suc)
  show ?thesis
    by (cases "prefix (js ''http'') ?m"; cases "prefix (js ''s'') (drop 4 ?m)")
      (simp_all add: http_test_def absolute_http_url_def a b c d e)
qed

lemma absolute_http_url_nonempty: "absolute_http_url s \<Longrightarrow> s \<noteq> []"
  by (auto simp: absolute_http_url_def js_def)

text \<open>
  C9. A source is rendered as a hyperlink exactly when its key or its id is an absolute
  \<open>http://\<close> or \<open>https://\<close> URL. The link target is the key when the key is such a URL
  (also when the id is one too), and the id otherwise; the link text is the id. When
  neither is a URL the id is shown as inline code. The sources block of an answer bubble
  holds one such item per source, in order.
\<close>

theorem source_li_link_iff_url:
  "source_li s =
     (if absolute_http_url (key s) then Anchor (key s) (src_id s) (key s)
      else if absolute_http_url (src_id s) then Anchor (src_id s) (src_id s) (key s)
      else CodeChip (src_id s) (key s))
   \<and> ((\<exists>h. source_li s = Anchor h (src_id s) (key s))
        = (absolute_http_url (key s) \<or> absolute_http_url (src_id s)))
   \<and> bubble_sources (AssistantBubble txt t (Some (s # ss)) None) = Some (map source_li (s # ss))"
proof -
  have 1: "source_li s =
     (if absolute_http_url (key s) then Anchor (key s) (src_id s) (key s)
      else if absolute_http_url (src_id s) then Anchor (src_id s) (src_id s) (key s)
      else CodeChip (src_id s) (key s))"
    using absolute_http_url_nonempty[of "key s"] absolute_http_url_nonempty[of "src_id s"]
    by (simp add: source_li_def or_else_def toHref_def http_test_iff truthy_def)
  have 2: "(\<exists>h. source_li s = Anchor h (src_id s) (key s))
        = (absolute_http_url (key s) \<or> absolute_http_url (src_id s))"
    unfolding 1 by simp
  have 3: "bubble_sources (AssistantBubble txt t (Some (s # ss)) None)
        = Some (map source_li (s # ss))"
    by (simp add: AssistantBubble_def answer_bubble_def)
  from 1 2 3 show ?thesis by blast
qed

theorem source_li_link_iff_url_witness:
  "absolute_http_url (key src_url_key)
   \<and> source_li src_url_key = Anchor (js ''HTTPS://example.com/doc1'') (js ''doc1'')
        (js ''HTTPS://example.com/doc1'')
   \<and> \<not> absolute_http_url (key src_url_id) \<and> absolute_http_url (src_id src_url_id)
   \<and> source_li src_url_id = Anchor (js ''http://example.com/a'') (js ''http://example.com/a'')
        (js ''docs/a.pdf'')
   \<and> \<not> absolute_http_url (key src_plain) \<and> \<not> absolute_http_url (src_id src_plain)
   \<and> source_li src_plain = CodeChip (js ''doc3'') (js ''s3/bucket/doc3.txt'')"
proof -
  have k1: "absolute_http_url (key src_url_key)"
    by (simp add: src_url_key_def absolute_http_url_def js_def ascii_lower_def)
  have k2: "\<not> absolute_http_url (key src_url_id)" "absolute_http_url (src_id src_url_id)"
    by (simp_all add: src_url_id_def absolute_http_url_def js_def ascii_lower_def)
  have k3: "\<not> absolute_http_url (key src_plain)" "\<not> absolute_http_url (src_id src_plain)"
    by (simp_all add: src_plain_def absolute_http_url_def js_def ascii_lower_def)
  from source_li_link_iff_url [of src_url_key] k1
  have r1: "source_li src_url_key = Anchor (key src_url_key) (src_id src_url_key) (key src_url_key)"
    by simp
  from source_li_link_iff_url [of src_url_id] k2
  have r2: "source_li src_url_id = Anchor (src_id src_url_id) (src_id src_url_id) (key src_url_id)"
    by simp
  from source_li_link_iff_url [of src_plain] k3
  have r3: "source_li src_plain = CodeChip (src_id src_plain) (key src_plain)"
    by simp
  from r1 have r1': "source_li src_url_key = Anchor (js ''HTTPS://example.com/doc1'') (js ''doc1'')
        (js ''HTTPS://example.com/doc1'')"
    by (simp add: src_url_key_def)
  from r2 have r2': "source_li src_url_id = Anchor (js ''http://example.com/a'')
        (js ''http://example.com/a'') (js ''docs/a.pdf'')"
    by (simp add: src_url_id_def)
  from r3 have r3': "source_li src_plain = CodeChip (js ''doc3'') (js ''s3/bucket/doc3.txt'')"
    by (simp add: src_plain_def)
  from k1 k2 k3 r1' r2' r3' show ?thesis by blast
qed

text \<open>
  C10. The bubble is chosen by the truthiness of the error string. An error that is
  present but empty gives the answer bubble, the same as an absent error: the text (the
  em-dash when the text is empty) and the sources block when there are sources. Only a
  non-empty error gives the error bubble. A backend reply whose \<open>error\<close> is the empty
  string produces such a message.
\<close>

theorem empty_error_renders_as_answer:
  "AssistantBubble txt t srcs (Some []) =
     AnswerBubble (if txt = [] then [0x2014] else txt)
       (case srcs of None \<Rightarrow> None
        | Some ss \<Rightarrow> if ss = [] then None else Some (map source_li ss)) t
   \<and> AssistantBubble txt t srcs (Some []) = AssistantBubble txt t srcs None
   \<and> AssistantBubble txt t srcs (Some e) =
       (if e = [] then AssistantBubble txt t srcs None else ErrorBubble (js ''Error: '' @ e))
   \<and> error (asstMsg uid now (Resolved \<lparr>answer = a, data_sources = srcs, data_error = Some []\<rparr>))
       = Some []
   \<and> render_assistant
       (asstMsg uid now (Resolved \<lparr>answer = a, data_sources = srcs, data_error = Some []\<rparr>))
       = Some (AnswerBubble
           (case a of None \<Rightarrow> [0x2014] | Some x \<Rightarrow> if x = [] then [0x2014] else x)
           (case srcs of None \<Rightarrow> None
            | Some ss \<Rightarrow> if ss = [] then None else Some (map source_li ss)) now)"
  by (cases a; cases srcs)
    (simp_all add: AssistantBubble_def answer_bubble_def truthy_def asstMsg_def or_default_def)


section \<open>Persistence\<close>

subsection \<open>Strings: parsing undoes quoting\<close>

lemma hex_val_digit:
  assumes "n < 16"
  shows "hex_val (hex_digit n) = Some n"
proof -
  have "n \<in> {0, 1, 2, 3, 4, 5, 6, 7, 8, 9, 10, 11, 12, 13, 14, 15}"
    using assms by (simp; arith)
  then show ?thesis
    by (elim insertE emptyE) (simp_all add: hex_val_def hex_digit_def)
qed

lemma nat_hex_digits:
  "(((n div 4096) * 16 + n div 256 mod 16) * 16 + n div 16 mod 16) * 16 + n mod 16 = (n::nat)"
proof -
  have d1: "n div 256 = n div 16 div 16"
    using div_mult2_eq[of n 16 16] by simp
  have d2: "n div 4096 = n div 256 div 16"
    using div_mult2_eq[of n 256 16] by simp
  have a: "(n div 256) * 16 + n div 16 mod 16 = n div 16"
    unfolding d1 by (rule div_mult_mod_eq)
  have b: "(n div 4096) * 16 + n div 256 mod 16 = n div 256"
    unfolding d2 by (rule div_mult_mod_eq)
  show ?thesis
    unfolding b a by (rule div_mult_mod_eq)
qed

lemma hex4_escape:
  "hex4 (hex_digit (unat c div 4096)) (hex_digit (unat c div 256 mod 16))
        (hex_digit (unat c div 16 mod 16)) (hex_digit (unat c mod 16)) = Some c"
proof -
  have "unat c < 2 ^ 16"
    using unsigned_less[of c, where 'a = nat] by simp
  then have a: "unat c div 4096 < 16" by simp
  have b: "unat c div 256 mod 16 < 16" "unat c div 16 mod 16 < 16" "unat c mod 16 < 16"
    by simp_all
  have e: "(of_nat ((((unat c div 4096) * 16 + unat c div 256 mod 16) * 16
            + unat c div 16 mod 16) * 16 + unat c mod 16) :: 16 word) = c"
    by (simp only: nat_hex_digits) simp
  show ?thesis
    by (simp only: hex4_def hex_val_digit[OF a] hex_val_digit[OF b(1)] hex_val_digit[OF b(2)]
        hex_val_digit[OF b(3)] prod.case option.case e)
qed

lemma parse_chars_escape:
  "parse_chars (unicode_escape c @ s) = cons_result c (parse_chars s)"
  by (simp add: unicode_escape_def hex4_escape)

lemma low_raw: "is_low d \<Longrightarrow> d \<noteq> 0x22 \<and> d \<noteq> 0x5C \<and> \<not> d < 0x20"
  unfolding is_low_def by (auto simp: word_le_nat_alt word_less_nat_alt)

lemma high_raw: "is_high d \<Longrightarrow> d \<noteq> 0x22 \<and> d \<noteq> 0x5C \<and> \<not> d < 0x20"
  unfolding is_high_def by (auto simp: word_le_nat_alt word_less_nat_alt)

lemma pc_esc:
  "unescape e = Some u \<Longrightarrow> e \<noteq> 0x75 \<Longrightarrow>
   parse_chars (0x5C # e # s) = cons_result u (parse_chars s)"
  by simp

lemma pc_raw:
  "c \<noteq> 0x22 \<Longrightarrow> c \<noteq> 0x5C \<Longrightarrow> \<not> c < 0x20 \<Longrightarrow>
   parse_chars (c # s) = cons_result c (parse_chars s)"
  by simp

lemma parse_chars_quote:
  "parse_chars (quote_chars s @ 0x22 # rest) = Some (s, rest)"
proof (induction "length s" arbitrary: s rule: less_induct)
  case less
  show ?case
  proof (cases s)
    case Nil
    then show ?thesis by simp
  next
    case (Cons c t)
    have IHt: "parse_chars (quote_chars t @ 0x22 # rest) = Some (t, rest)"
      using less[of t] Cons by simp
    have esc: "parse_chars (unicode_escape c @ quote_chars t @ 0x22 # rest) = Some (c # t, rest)"
      by (simp only: parse_chars_escape IHt cons_result_def option.case prod.case)
    consider (short) "c = 0x08 \<or> c = 0x09 \<or> c = 0x0A \<or> c = 0x0C \<or> c = 0x0D \<or> c = 0x22 \<or> c = 0x5C"
      | (ctl) "\<not> (c = 0x08 \<or> c = 0x09 \<or> c = 0x0A \<or> c = 0x0C \<or> c = 0x0D \<or> c = 0x22 \<or> c = 0x5C)" "c < 0x20"
      | (high) "\<not> (c = 0x08 \<or> c = 0x09 \<or> c = 0x0A \<or> c = 0x0C \<or> c = 0x0D \<or> c = 0x22 \<or> c = 0x5C)" "\<not> c < 0x20" "is_high c"
      | (low) "\<not> (c = 0x08 \<or> c = 0x09 \<or> c = 0x0A \<or> c = 0x0C \<or> c = 0x0D \<or> c = 0x22 \<or> c = 0x5C)" "\<not> c < 0x20" "\<not> is_high c" "is_low c"
      | (raw) "\<not> (c = 0x08 \<or> c = 0x09 \<or> c = 0x0A \<or> c = 0x0C \<or> c = 0x0D \<or> c = 0x22 \<or> c = 0x5C)" "\<not> c < 0x20" "\<not> is_high c" "\<not> is_low c"
      by blast
    then show ?thesis
    proof cases
      case short
      then show ?thesis
        by (elim disjE) (simp_all add: Cons IHt cons_result_def unescape_def)
    next
      case ctl
      then have "quote_chars s = unicode_escape c @ quote_chars t"
        by (simp add: Cons)
      then show ?thesis using esc Cons by simp
    next
      case high
      show ?thesis
      proof (cases t)
        case Nil
        with high have q: "quote_chars s = unicode_escape c"
          by (simp add: Cons)
        show ?thesis unfolding q using esc Nil Cons by simp
      next
        case (Cons d t')
        show ?thesis
        proof (cases "is_low d")
          case True
          have IHt': "parse_chars (quote_chars t' @ 0x22 # rest) = Some (t', rest)"
            using less[of t'] Cons \<open>s = c # t\<close> by simp
          from high True have q: "quote_chars s = c # d # quote_chars t'"
            by (simp add: Cons \<open>s = c # t\<close>)
          from high have c: "c \<noteq> 0x22" "c \<noteq> 0x5C" "\<not> c < 0x20" by auto
          from low_raw[OF True] have d: "d \<noteq> 0x22" "d \<noteq> 0x5C" "\<not> d < 0x20" by auto
          show ?thesis
            unfolding q using Cons \<open>s = c # t\<close>
            by (simp add: pc_raw[OF c] pc_raw[OF d] IHt' cons_result_def del: parse_chars.simps)
        next
          case False
          with high have q: "quote_chars s = unicode_escape c @ quote_chars t"
            by (simp add: Cons \<open>s = c # t\<close>)
          then show ?thesis using esc \<open>s = c # t\<close> by simp
        qed
      qed
    next
      case low
      then have "quote_chars s = unicode_escape c @ quote_chars t"
        by (simp add: Cons)
      then show ?thesis using esc Cons by simp
    next
      case raw
      then have q: "quote_chars s = c # quote_chars t"
        by (simp add: Cons)
      from raw have c: "c \<noteq> 0x22" "c \<noteq> 0x5C" "\<not> c < 0x20" by auto
      show ?thesis
        unfolding q using Cons
        by (simp add: pc_raw[OF c] IHt cons_result_def del: parse_chars.simps)
    qed
  qed
qed

subsection \<open>Numbers: parsing undoes printing\<close>

lemma digit_char_facts:
  assumes "d < 10"
  shows "is_digit (digit_char d)" and "unat (digit_char d) - 48 = d"
    and "(digit_char d = 0x30) = (d = 0)"
proof -
  have "d \<in> {0, 1, 2, 3, 4, 5, 6, 7, 8, 9}"
    using assms by (simp; arith)
  then show "is_digit (digit_char d)" and "unat (digit_char d) - 48 = d"
    and "(digit_char d = 0x30) = (d = 0)"
    by (elim insertE emptyE; simp add: is_digit_def digit_char_def)+
qed

lemma digits_val_snoc: "digits_val (xs @ [c]) = 10 * digits_val xs + (unat c - 48)"
  by (simp add: digits_val_def)

lemma show_nat_digits: "list_all is_digit (show_nat n)"
proof (induction n rule: show_nat.induct)
  case (1 n)
  show ?case
  proof (cases "n < 10")
    case True
    then show ?thesis by (simp add: show_nat.simps[of n] digit_char_facts)
  next
    case False
    with 1 show ?thesis by (simp add: show_nat.simps[of n] digit_char_facts)
  qed
qed

lemma show_nat_val: "digits_val (show_nat n) = n"
proof (induction n rule: show_nat.induct)
  case (1 n)
  show ?case
  proof (cases "n < 10")
    case True
    then show ?thesis
      using digits_val_snoc[of "[]" "digit_char n"]
      by (simp add: show_nat.simps[of n] digit_char_facts digits_val_def)
  next
    case False
    with 1 show ?thesis
      by (simp add: show_nat.simps[of n] digits_val_snoc digit_char_facts)
  qed
qed

lemma show_nat_hd: "\<exists>c t. show_nat n = c # t \<and> is_digit c \<and> ((c = 0x30) = (n = 0))"
proof (induction n rule: show_nat.induct)
  case (1 n)
  show ?case
  proof (cases "n < 10")
    case True
    then show ?thesis by (simp add: show_nat.simps[of n] digit_char_facts)
  next
    case False
    then have "n div 10 \<noteq> 0" by simp
    with 1 False show ?thesis by (auto simp: show_nat.simps[of n])
  qed
qed

lemma show_nat_zero: "show_nat 0 = [0x30]"
  by (simp add: show_nat.simps[of 0] digit_char_def)

lemma takeWhile_digits:
  "list_all is_digit ds \<Longrightarrow> num_stop rest \<Longrightarrow>
   takeWhile is_digit (ds @ rest) = ds \<and> dropWhile is_digit (ds @ rest) = rest"
  by (induction ds) (auto simp: num_stop_def split: list.splits)

lemma parse_int_part_show:
  assumes "num_stop rest"
  shows "parse_int_part (show_nat n @ rest) = Some (n, rest)"
proof (cases "n = 0")
  case True
  then show ?thesis by (simp add: show_nat_zero parse_int_part_def)
next
  case False
  from show_nat_hd[of n] False obtain c t where
    ct: "show_nat n = c # t" "is_digit c" "c \<noteq> 0x30" by auto
  from takeWhile_digits[OF show_nat_digits assms, of n]
  have tw: "takeWhile is_digit (show_nat n @ rest) = show_nat n"
    "dropWhile is_digit (show_nat n @ rest) = rest" by auto
  have "parse_int_part (show_nat n @ rest)
      = Some (digits_val (takeWhile is_digit (show_nat n @ rest)),
              dropWhile is_digit (show_nat n @ rest))"
    using ct by (simp add: parse_int_part_def)
  then show ?thesis by (simp add: tw show_nat_val)
qed

lemma parse_frac_stop: "num_stop rest \<Longrightarrow> parse_frac rest = Some (0, rest)"
  by (auto simp: num_stop_def parse_frac_def split: list.splits)

lemma parse_exp_stop: "num_stop rest \<Longrightarrow> parse_exp rest = Some (1, rest)"
  by (auto simp: num_stop_def parse_exp_def split: list.splits)

lemma parse_unsigned_show:
  "num_stop rest \<Longrightarrow> parse_unsigned (show_nat n @ rest) = Some (of_nat n, rest)"
  by (simp add: parse_unsigned_def parse_int_part_show parse_frac_stop parse_exp_stop)

lemma parse_number_show:
  assumes "num_stop rest"
  shows "parse_number (show_int i @ rest) = Some (of_int i, rest)"
proof (cases "i < 0")
  case True
  then have "(of_int i :: rat) = - of_nat (nat (- i))" by simp
  with True assms show ?thesis
    by (simp add: show_int_def parse_number_def parse_unsigned_show del: of_nat_nat)
next
  case False
  from show_nat_hd[of "nat i"] obtain c t where
    ct: "show_nat (nat i) = c # t" "is_digit c" by auto
  then have "c \<noteq> 0x2D" by (auto simp: is_digit_def)
  then have "parse_number (show_nat (nat i) @ rest) = parse_unsigned (show_nat (nat i) @ rest)"
    using ct by (simp add: parse_number_def)
  with False assms show ?thesis
    by (simp add: show_int_def parse_unsigned_show)
qed

subsection \<open>Values: parsing undoes \<open>JSON.stringify\<close>\<close>

lemma delim_num_stop: "delim rest \<Longrightarrow> num_stop rest"
  by (auto simp: delim_def num_stop_def is_digit_def split: list.splits)

lemma delim_simps [simp]: "delim []" "delim (0x2C # s)" "delim (0x5D # s)" "delim (0x7D # s)"
  by (simp_all add: delim_def)

lemma skip_ws_keep: "\<not> is_json_ws c \<Longrightarrow> skip_ws (c # s) = c # s"
  by (simp add: skip_ws_def)

lemma step_arr:
  "\<not> is_json_ws d \<Longrightarrow> d \<noteq> 0x5D \<Longrightarrow>
   parse_value (Suc n) (0x5B # d # r) = map_value JArr (parse_elements n (d # r))"
  by (simp add: skip_ws_def is_json_ws_def)

lemma step_arr_empty: "parse_value (Suc n) (0x5B # 0x5D # rest) = Some (JArr [], rest)"
  by (simp add: skip_ws_def is_json_ws_def)

lemma step_obj:
  "\<not> is_json_ws d \<Longrightarrow> d \<noteq> 0x7D \<Longrightarrow>
   parse_value (Suc n) (0x7B # d # r) = map_value JObj (parse_members n (d # r))"
  by (simp add: skip_ws_def is_json_ws_def)

lemma step_obj_empty: "parse_value (Suc n) (0x7B # 0x7D # rest) = Some (JObj [], rest)"
  by (simp add: skip_ws_def is_json_ws_def)

lemma step_str:
  "parse_value (Suc n) (QuoteJSONString s @ rest) = Some (JStr s, rest)"
  by (simp add: QuoteJSONString_def skip_ws_def is_json_ws_def parse_chars_quote map_value_def)

lemma step_lit:
  "parse_value (Suc n) (js ''null'' @ rest) = Some (JNull, rest)"
  "parse_value (Suc n) (js ''true'' @ rest) = Some (JBool True, rest)"
  "parse_value (Suc n) (js ''false'' @ rest) = Some (JBool False, rest)"
  by (simp_all add: js_def skip_ws_def is_json_ws_def with_value_def)

lemma step_num:
  assumes "delim rest"
  shows "parse_value (Suc n) (show_int i @ rest) = Some (JNum (of_int i), rest)"
proof -
  obtain c t where ct: "show_int i = c # t" "c = 0x2D \<or> is_digit c"
    using show_nat_hd[of "nat i"] show_nat_hd[of "nat (- i)"]
    by (cases "i < 0") (auto simp: show_int_def)
  then have c: "\<not> is_json_ws c" "c \<noteq> 0x7B" "c \<noteq> 0x5B" "c \<noteq> 0x22" "c \<noteq> 0x74"
    "c \<noteq> 0x66" "c \<noteq> 0x6E"
    by (auto simp: is_digit_def is_json_ws_def)
  have "parse_value (Suc n) (c # t @ rest) = map_value JNum (parse_number (c # t @ rest))"
    using c by (simp add: skip_ws_keep)
  then show ?thesis
    using parse_number_show[OF delim_num_stop[OF assms], of i] ct
    by (simp add: map_value_def)
qed

lemma step_elem_last:
  "parse_value n s = Some (v, 0x5D # rest) \<Longrightarrow> parse_elements (Suc n) s = Some ([v], rest)"
  by (simp add: skip_ws_def is_json_ws_def)

lemma step_elem_more:
  "parse_value n s = Some (v, 0x2C # r) \<Longrightarrow>
   parse_elements (Suc n) s = cons_result v (parse_elements n r)"
  by (simp add: skip_ws_def is_json_ws_def)

lemma step_memb_last:
  "parse_value n s = Some (v, 0x7D # rest) \<Longrightarrow>
   parse_members (Suc n) (QuoteJSONString k @ 0x3A # s) = Some ([(k, v)], rest)"
  by (simp add: QuoteJSONString_def skip_ws_def is_json_ws_def parse_chars_quote)

lemma step_memb_more:
  "parse_value n s = Some (v, 0x2C # r) \<Longrightarrow>
   parse_members (Suc n) (QuoteJSONString k @ 0x3A # s) = cons_result (k, v) (parse_members n r)"
  by (simp add: QuoteJSONString_def skip_ws_def is_json_ws_def parse_chars_quote)

lemma stringify_first:
  "\<exists>c t. JSON_stringify v = c # t \<and> \<not> is_json_ws c \<and> c \<noteq> 0x5D \<and> c \<noteq> 0x7D"
proof (cases v)
  case (JNum i)
  obtain c t where ct: "show_int i = c # t" "c = 0x2D \<or> is_digit c"
    using show_nat_hd[of "nat i"] show_nat_hd[of "nat (- i)"]
    by (cases "i < 0") (auto simp: show_int_def)
  then show ?thesis using JNum by (auto simp: is_digit_def is_json_ws_def)
qed (auto simp: js_def is_json_ws_def QuoteJSONString_def)

lemma elements_first:
  "vs \<noteq> [] \<Longrightarrow> \<exists>c t. stringify_elements vs = c # t \<and> \<not> is_json_ws c \<and> c \<noteq> 0x5D"
proof (cases vs)
  case Nil
  assume "vs \<noteq> []"
  with Nil show ?thesis by simp
next
  case (Cons v ws)
  from stringify_first[of v] obtain c t where "JSON_stringify v = c # t" "\<not> is_json_ws c"
    "c \<noteq> 0x5D" by auto
  then show ?thesis using Cons by (cases ws) auto
qed

lemma members_first:
  "ms \<noteq> [] \<Longrightarrow> \<exists>t. stringify_members ms = 0x22 # t"
proof (cases ms)
  case Nil
  assume "ms \<noteq> []"
  with Nil show ?thesis by simp
next
  case (Cons m ws)
  then show ?thesis by (cases m; cases ws) (auto simp: QuoteJSONString_def)
qed

lemma parse_stringify_all:
  "(\<forall>n rest. 2 * length (JSON_stringify v) + 1 \<le> n \<longrightarrow> delim rest \<longrightarrow>
      parse_value n (JSON_stringify v @ rest) = Some (map_json of_int v, rest))"
  "(vs \<noteq> [] \<longrightarrow> (\<forall>n rest. 2 * length (stringify_elements vs) + 2 \<le> n \<longrightarrow>
      parse_elements n (stringify_elements vs @ 0x5D # rest)
        = Some (map (map_json of_int) vs, rest)))"
  "(ms \<noteq> [] \<longrightarrow> (\<forall>n rest. 2 * length (stringify_members ms) + 2 \<le> n \<longrightarrow>
      parse_members n (stringify_members ms @ 0x7D # rest)
        = Some (map (map_prod id (map_json of_int)) ms, rest)))"
proof (induction v and vs and ms rule: JSON_stringify_stringify_elements_stringify_members.induct)
  case 1
  show ?case
  proof (intro allI impI)
    fix n rest assume "2 * length (JSON_stringify (JNull :: int json)) + 1 \<le> n"
    then obtain k where "n = Suc k" by (cases n) auto
    then show "parse_value n (JSON_stringify JNull @ rest) = Some (map_json of_int JNull, rest)"
      by (simp add: step_lit del: parse_value.simps)
  qed
next
  case (2 b)
  show ?case
  proof (intro allI impI)
    fix n rest assume "2 * length (JSON_stringify (JBool b :: int json)) + 1 \<le> n"
    then obtain k where "n = Suc k" by (cases n) auto
    then show "parse_value n (JSON_stringify (JBool b) @ rest)
        = Some (map_json of_int (JBool b), rest)"
      by (simp add: step_lit del: parse_value.simps)
  qed
next
  case (3 i)
  show ?case
  proof (intro allI impI)
    fix n rest assume "2 * length (JSON_stringify (JNum i)) + 1 \<le> n" and d: "delim rest"
    then obtain k where "n = Suc k" by (cases n) auto
    then show "parse_value n (JSON_stringify (JNum i) @ rest)
        = Some (map_json of_int (JNum i), rest)"
      by (simp add: step_num[OF d] del: parse_value.simps)
  qed
next
  case (4 s)
  show ?case
  proof (intro allI impI)
    fix n rest assume "2 * length (JSON_stringify (JStr s :: int json)) + 1 \<le> n"
    then obtain k where "n = Suc k" by (cases n) auto
    then show "parse_value n (JSON_stringify (JStr s) @ rest)
        = Some (map_json of_int (JStr s), rest)"
      by (simp add: step_str del: parse_value.simps)
  qed
next
  case (5 vs)
  show ?case
  proof (intro allI impI)
    fix n rest assume n: "2 * length (JSON_stringify (JArr vs)) + 1 \<le> n"
    then obtain k where k: "n = Suc k" by (cases n) auto
    show "parse_value n (JSON_stringify (JArr vs) @ rest)
        = Some (map_json of_int (JArr vs), rest)"
    proof (cases "vs = []")
      case True
      then show ?thesis using k by (simp add: step_arr_empty del: parse_value.simps)
    next
      case False
      from elements_first[OF False] obtain c t where
        ct: "stringify_elements vs = c # t" "\<not> is_json_ws c" "c \<noteq> 0x5D" by auto
      from n k have "2 * length (stringify_elements vs) + 2 \<le> k" by simp
      with 5 False have
        "parse_elements k (stringify_elements vs @ 0x5D # rest)
           = Some (map (map_json of_int) vs, rest)" by blast
      then have "parse_elements k (c # t @ 0x5D # rest) = Some (map (map_json of_int) vs, rest)"
        by (simp add: ct)
      then show ?thesis
        using k ct step_arr[OF ct(2) ct(3), of k "t @ 0x5D # rest"]
        by (simp add: map_value_def del: parse_value.simps)
    qed
  qed
next
  case (6 ms)
  show ?case
  proof (intro allI impI)
    fix n rest assume n: "2 * length (JSON_stringify (JObj ms)) + 1 \<le> n"
    then obtain k where k: "n = Suc k" by (cases n) auto
    show "parse_value n (JSON_stringify (JObj ms) @ rest)
        = Some (map_json of_int (JObj ms), rest)"
    proof (cases "ms = []")
      case True
      then show ?thesis using k by (simp add: step_obj_empty del: parse_value.simps)
    next
      case False
      from members_first[OF False] obtain t where
        ct: "stringify_members ms = 0x22 # t" by auto
      have q: "\<not> is_json_ws (0x22 :: code_unit)" "(0x22 :: code_unit) \<noteq> 0x7D"
        by (simp_all add: is_json_ws_def)
      from n k have "2 * length (stringify_members ms) + 2 \<le> k" by simp
      with 6 False have
        "parse_members k (stringify_members ms @ 0x7D # rest)
           = Some (map (map_prod id (map_json of_int)) ms, rest)" by blast
      then have "parse_members k (0x22 # t @ 0x7D # rest)
           = Some (map (map_prod id (map_json of_int)) ms, rest)"
        by (simp add: ct)
      then show ?thesis
        using k ct step_obj[OF q, of k "t @ 0x7D # rest"]
        by (simp add: map_value_def del: parse_value.simps)
    qed
  qed
next
  case 7
  show ?case by simp
next
  case (8 v)
  show ?case
  proof (intro allI impI)
    fix n rest assume n: "2 * length (stringify_elements [v]) + 2 \<le> n"
    then obtain k where k: "n = Suc k" by (cases n) auto
    with n have "2 * length (JSON_stringify v) + 1 \<le> k" by simp
    with 8 have "parse_value k (JSON_stringify v @ 0x5D # rest)
        = Some (map_json of_int v, 0x5D # rest)" by simp
    from step_elem_last[OF this] k
    show "parse_elements n (stringify_elements [v] @ 0x5D # rest)
        = Some (map (map_json of_int) [v], rest)"
      by simp
  qed
next
  case (9 v w vs)
  show ?case
  proof (intro allI impI)
    fix n rest assume n: "2 * length (stringify_elements (v # w # vs)) + 2 \<le> n"
    then obtain k where k: "n = Suc k" by (cases n) auto
    with n have kv: "2 * length (JSON_stringify v) + 1 \<le> k"
      and ke: "2 * length (stringify_elements (w # vs)) + 2 \<le> k" by simp_all
    from 9(1) kv have "parse_value k (JSON_stringify v @ 0x2C # stringify_elements (w # vs) @ 0x5D # rest)
        = Some (map_json of_int v, 0x2C # stringify_elements (w # vs) @ 0x5D # rest)" by simp
    from step_elem_more[OF this] 9(2) ke k
    show "parse_elements n (stringify_elements (v # w # vs) @ 0x5D # rest)
        = Some (map (map_json of_int) (v # w # vs), rest)"
      by (simp add: cons_result_def del: parse_elements.simps)
  qed
next
  case 10
  show ?case by simp
next
  case (11 k' v)
  show ?case
  proof (intro allI impI)
    fix n rest assume n: "2 * length (stringify_members [(k', v)]) + 2 \<le> n"
    then obtain k where k: "n = Suc k" by (cases n) auto
    with n have "2 * length (JSON_stringify v) + 1 \<le> k" by simp
    with 11 have "parse_value k (JSON_stringify v @ 0x7D # rest)
        = Some (map_json of_int v, 0x7D # rest)" by simp
    from step_memb_last[OF this, of k'] k
    show "parse_members n (stringify_members [(k', v)] @ 0x7D # rest)
        = Some (map (map_prod id (map_json of_int)) [(k', v)], rest)"
      by simp
  qed
next
  case (12 k' v m ms)
  show ?case
  proof (intro allI impI)
    fix n rest assume n: "2 * length (stringify_members ((k', v) # m # ms)) + 2 \<le> n"
    then obtain k where k: "n = Suc k" by (cases n) auto
    with n have kv: "2 * length (JSON_stringify v) + 1 \<le> k"
      and ke: "2 * length (stringify_members (m # ms)) + 2 \<le> k" by simp_all
    from 12(1) kv have "parse_value k (JSON_stringify v @ 0x2C # stringify_members (m # ms) @ 0x7D # rest)
        = Some (map_json of_int v, 0x2C # stringify_members (m # ms) @ 0x7D # rest)" by simp
    from step_memb_more[OF this, of k'] 12(2) ke k
    show "parse_members n (stringify_members ((k', v) # m # ms) @ 0x7D # rest)
        = Some (map (map_prod id (map_json of_int)) ((k', v) # m # ms), rest)"
      by (simp add: cons_result_def id_def del: parse_members.simps)
  qed
qed

lemma JSON_parse_stringify: "JSON_parse (JSON_stringify v) = Inr (map_json of_int v)"
proof -
  have "parse_value (2 * length (JSON_stringify v) + 2) (JSON_stringify v @ [])
      = Some (map_json of_int v, [])"
    using parse_stringify_all(1)[of v, rule_format, of "2 * length (JSON_stringify v) + 2" "[]"]
    by (simp del: parse_value.simps)
  then show ?thesis
    by (simp add: JSON_parse_def parse_text_def skip_ws_def)
qed

subsection \<open>The conversation read back at its type\<close>

lemma as_Source_json: "as_Source (map_json of_int (json_of_Source s)) = Some s"
  by (simp add: as_Source_def json_of_Source_def property_def as_string_def js_def)

lemma those_map_Some: "(\<And>x. x \<in> set xs \<Longrightarrow> f (g x) = Some x) \<Longrightarrow> those (map (f \<circ> g) xs) = Some xs"
  by (induction xs) simp_all

lemma as_sources_json:
  "those (map (as_Source \<circ> (map_json of_int \<circ> json_of_Source)) ss) = Some ss"
  using those_map_Some[of ss as_Source "map_json of_int \<circ> json_of_Source"]
  by (simp add: as_Source_json)

lemma as_ChatMsg_json: "as_ChatMsg (map_json of_int (json_of_msg m)) = Some m"
proof (cases m)
  case (User i body t)
  then show ?thesis
    by (simp add: as_ChatMsg_def property_def as_string_def as_int_def js_def)
next
  case (Assistant i body t srcs err)
  then show ?thesis
    by (cases srcs; cases err)
      (simp_all add: as_ChatMsg_def property_def as_string_def as_int_def js_def as_sources_def
        as_error_def as_sources_json)
qed

lemma as_ChatMsgs_json: "as_ChatMsgs (map_json of_int (json_of_msgs ms)) = Some ms"
  using those_map_Some[of ms as_ChatMsg "map_json of_int \<circ> json_of_msg"]
  by (simp add: as_ChatMsgs_def json_of_msgs_def as_ChatMsg_json)

lemma stringify_truthy: "truthy (JSON_stringify (json_of_msgs ms))"
  by (simp add: truthy_def json_of_msgs_def)


subsection \<open>The fuel of the parser is never exhausted\<close>

lemma skip_ws_cons: "skip_ws s = c # t \<Longrightarrow> Suc (length t) \<le> length s"
  using length_dropWhile_le[of is_json_ws s] by (simp add: skip_ws_def)

lemma cons_result_Some:
  "cons_result x r = Some (ys, rest) \<Longrightarrow> \<exists>xs. r = Some (xs, rest) \<and> ys = x # xs"
  by (cases r) (auto simp: cons_result_def)

lemma map_value_Some:
  "map_value f r = Some (y, rest) \<Longrightarrow> \<exists>x. r = Some (x, rest) \<and> y = f x"
  by (cases r) (auto simp: map_value_def)

lemma with_value_Some:
  "with_value v r = Some (y, rest) \<Longrightarrow> r = Some rest \<and> y = v"
  by (cases r) (auto simp: with_value_def)

lemma match_lit_shorter: "match_lit p s = Some r \<Longrightarrow> length r \<le> length s"
  by (induction p s rule: match_lit.induct) (auto split: if_splits)

lemma parse_chars_shorter: "parse_chars s = Some (t, r) \<Longrightarrow> length r < length s"
proof (induction "length s" arbitrary: s t rule: less_induct)
  case less
  show ?case
  proof (cases s)
    case Nil
    with less.prems show ?thesis by simp
  next
    case (Cons c s1)
    note s = Cons
    show ?thesis
    proof (cases "c = 0x22")
      case True
      with less.prems s show ?thesis by simp
    next
      case q: False
      show ?thesis
      proof (cases "c = 0x5C")
        case True
        show ?thesis
        proof (cases s1)
          case Nil
          with less.prems s True q show ?thesis by simp
        next
          case (Cons e s2)
          note s1 = Cons
          show ?thesis
          proof (cases "e = 0x75")
            case True
            with less.prems s s1 q \<open>c = 0x5C\<close> obtain h1 h2 h3 h4 s3 u where
              s2: "s2 = h1 # h2 # h3 # h4 # s3" and
              r: "cons_result u (parse_chars s3) = Some (t, r)"
              by (auto split: list.splits option.splits)
            from cons_result_Some[OF r] obtain xs where "parse_chars s3 = Some (xs, r)" by auto
            from less.hyps[OF _ this] s s1 s2 show ?thesis by simp
          next
            case False
            with less.prems s s1 q \<open>c = 0x5C\<close> obtain u where
              r: "cons_result u (parse_chars s2) = Some (t, r)"
              by (auto split: option.splits)
            from cons_result_Some[OF r] obtain xs where "parse_chars s2 = Some (xs, r)" by auto
            from less.hyps[OF _ this] s s1 show ?thesis by simp
          qed
        qed
      next
        case False
        with less.prems s q have r: "cons_result c (parse_chars s1) = Some (t, r)"
          by (simp split: if_splits)
        from cons_result_Some[OF r] obtain xs where "parse_chars s1 = Some (xs, r)" by auto
        from less.hyps[OF _ this] s show ?thesis by simp
      qed
    qed
  qed
qed

lemma parse_int_part_shorter: "parse_int_part s = Some (i, r) \<Longrightarrow> length r < length s"
proof (cases s)
  case Nil
  assume "parse_int_part s = Some (i, r)"
  with Nil show ?thesis by (simp add: parse_int_part_def)
next
  case (Cons c t)
  assume a: "parse_int_part s = Some (i, r)"
  have "length (dropWhile is_digit t) \<le> length t" by (rule length_dropWhile_le)
  with a Cons show ?thesis
    by (auto simp: parse_int_part_def split: if_splits)
qed

lemma parse_frac_shorter: "parse_frac s = Some (f, r) \<Longrightarrow> length r \<le> length s"
proof (cases s)
  case Nil
  assume "parse_frac s = Some (f, r)"
  with Nil show ?thesis by (simp add: parse_frac_def)
next
  case (Cons c t)
  assume a: "parse_frac s = Some (f, r)"
  have "length (dropWhile is_digit t) \<le> length t" by (rule length_dropWhile_le)
  with a Cons show ?thesis
    by (auto simp: parse_frac_def split: if_splits)
qed

lemma parse_exp_digits_shorter: "parse_exp_digits b s = Some (e, r) \<Longrightarrow> length r \<le> length s"
  using length_dropWhile_le[of is_digit s]
  by (auto simp: parse_exp_digits_def split: if_splits)

lemma parse_exp_shorter: "parse_exp s = Some (e, r) \<Longrightarrow> length r \<le> length s"
proof (cases s)
  case Nil
  assume "parse_exp s = Some (e, r)"
  with Nil show ?thesis by (simp add: parse_exp_def)
next
  case (Cons c t)
  assume a: "parse_exp s = Some (e, r)"
  show ?thesis
  proof (cases t)
    case Nil
    with a Cons show ?thesis by (auto simp: parse_exp_def split: if_splits)
  next
    case (Cons d t')
    with a \<open>s = c # t\<close> show ?thesis
      by (auto simp: parse_exp_def split: if_splits dest!: parse_exp_digits_shorter)
  qed
qed

lemma parse_unsigned_shorter: "parse_unsigned s = Some (x, r) \<Longrightarrow> length r < length s"
  by (auto simp: parse_unsigned_def split: option.splits
      dest!: parse_int_part_shorter parse_frac_shorter parse_exp_shorter)

lemma parse_number_shorter: "parse_number s = Some (x, r) \<Longrightarrow> length r < length s"
  by (cases s) (auto simp: parse_number_def split: if_splits option.splits
      dest!: parse_unsigned_shorter)

lemma parse_shorter:
  "(\<forall>s v r. parse_value n s = Some (v, r) \<longrightarrow> length r < length s)
   \<and> (\<forall>s vs r. parse_elements n s = Some (vs, r) \<longrightarrow> length r < length s)
   \<and> (\<forall>s ms r. parse_members n s = Some (ms, r) \<longrightarrow> length r < length s)"
proof (induction n)
  case 0
  show ?case by simp
next
  case (Suc n)
  then have IHv: "\<And>s v r. parse_value n s = Some (v, r) \<Longrightarrow> length r < length s"
    and IHe: "\<And>s vs r. parse_elements n s = Some (vs, r) \<Longrightarrow> length r < length s"
    and IHm: "\<And>s ms r. parse_members n s = Some (ms, r) \<Longrightarrow> length r < length s"
    by blast+
  have v: "length r < length s" if a: "parse_value (Suc n) s = Some (v, r)" for s v r
  proof (cases "skip_ws s")
    case Nil
    with a show ?thesis by simp
  next
    case (Cons c t)
    note st = skip_ws_cons[OF Cons]
    consider (obj) "c = 0x7B" | (arr) "c \<noteq> 0x7B" "c = 0x5B" | (str) "c \<noteq> 0x7B" "c \<noteq> 0x5B" "c = 0x22"
      | (lit) "c \<noteq> 0x7B" "c \<noteq> 0x5B" "c \<noteq> 0x22" "c = 0x74 \<or> c = 0x66 \<or> c = 0x6E"
      | (num) "c \<noteq> 0x7B" "c \<noteq> 0x5B" "c \<noteq> 0x22" "c \<noteq> 0x74" "c \<noteq> 0x66" "c \<noteq> 0x6E"
      by blast
    then show ?thesis
    proof cases
      case obj
      show ?thesis
      proof (cases "skip_ws t")
        case Nil
        with a Cons obj show ?thesis by simp
      next
        case (Cons d t')
        note tt = skip_ws_cons[OF Cons]
        show ?thesis
        proof (cases "d = 0x7D")
          case True
          with a \<open>skip_ws s = c # t\<close> Cons obj have "r = t'" by simp
          with st tt show ?thesis by simp
        next
          case False
          with a \<open>skip_ws s = c # t\<close> Cons obj
          have "map_value JObj (parse_members n (d # t')) = Some (v, r)" by simp
          from map_value_Some[OF this] obtain x where "parse_members n (d # t') = Some (x, r)"
            by auto
          from IHm[OF this] st tt show ?thesis by simp
        qed
      qed
    next
      case arr
      show ?thesis
      proof (cases "skip_ws t")
        case Nil
        with a Cons arr show ?thesis by simp
      next
        case (Cons d t')
        note tt = skip_ws_cons[OF Cons]
        show ?thesis
        proof (cases "d = 0x5D")
          case True
          with a \<open>skip_ws s = c # t\<close> Cons arr have "r = t'" by simp
          with st tt show ?thesis by simp
        next
          case False
          with a \<open>skip_ws s = c # t\<close> Cons arr
          have "map_value JArr (parse_elements n (d # t')) = Some (v, r)" by simp
          from map_value_Some[OF this] obtain x where "parse_elements n (d # t') = Some (x, r)"
            by auto
          from IHe[OF this] st tt show ?thesis by simp
        qed
      qed
    next
      case str
      with a Cons have "map_value JStr (parse_chars t) = Some (v, r)" by simp
      from map_value_Some[OF this] obtain x where "parse_chars t = Some (x, r)" by auto
      from parse_chars_shorter[OF this] st show ?thesis by simp
    next
      case lit
      with a Cons obtain p where "match_lit p t = Some r"
        by (auto dest!: with_value_Some)
      from match_lit_shorter[OF this] st show ?thesis by simp
    next
      case num
      with a Cons have "map_value JNum (parse_number (c # t)) = Some (v, r)" by simp
      from map_value_Some[OF this] obtain x where "parse_number (c # t) = Some (x, r)" by auto
      from parse_number_shorter[OF this] st show ?thesis by simp
    qed
  qed
  have e: "length r < length s" if a: "parse_elements (Suc n) s = Some (vs, r)" for s vs r
  proof -
    from a obtain v r1 where pv: "parse_value n s = Some (v, r1)"
      by (auto split: option.splits)
    note l1 = IHv[OF pv]
    show ?thesis
    proof (cases "skip_ws r1")
      case Nil
      with a pv show ?thesis by simp
    next
      case (Cons c t)
      note l2 = skip_ws_cons[OF Cons]
      show ?thesis
      proof (cases "c = 0x2C")
        case True
        with a pv Cons have "cons_result v (parse_elements n t) = Some (vs, r)" by simp
        from cons_result_Some[OF this] obtain xs where "parse_elements n t = Some (xs, r)" by auto
        from IHe[OF this] l1 l2 show ?thesis by simp
      next
        case False
        with a pv Cons have "r = t" by (simp split: if_splits)
        with l1 l2 show ?thesis by simp
      qed
    qed
  qed
  have m: "length r < length s" if a: "parse_members (Suc n) s = Some (ms, r)" for s ms r
  proof (cases "skip_ws s")
    case Nil
    with a show ?thesis by simp
  next
    case (Cons q t)
    note l0 = skip_ws_cons[OF Cons]
    from a Cons have q: "q = 0x22" by (simp split: if_splits)
    with a Cons obtain k r1 where pc: "parse_chars t = Some (k, r1)"
      by (auto split: option.splits)
    note l1 = parse_chars_shorter[OF pc]
    show ?thesis
    proof (cases "skip_ws r1")
      case Nil
      with a \<open>skip_ws s = q # t\<close> q pc show ?thesis by simp
    next
      case (Cons c r2)
      note l2 = skip_ws_cons[OF Cons]
      from a \<open>skip_ws s = q # t\<close> q pc Cons have c: "c = 0x3A" by (simp split: if_splits)
      with a \<open>skip_ws s = q # t\<close> q pc Cons obtain v r3 where pv: "parse_value n r2 = Some (v, r3)"
        by (auto split: option.splits)
      note l3 = IHv[OF pv]
      show ?thesis
      proof (cases "skip_ws r3")
        case Nil
        with a \<open>skip_ws s = q # t\<close> q pc \<open>skip_ws r1 = c # r2\<close> c pv show ?thesis by simp
      next
        case (Cons c' r4)
        note l4 = skip_ws_cons[OF Cons]
        show ?thesis
        proof (cases "c' = 0x2C")
          case True
          with a \<open>skip_ws s = q # t\<close> q pc \<open>skip_ws r1 = c # r2\<close> c pv Cons
          have "cons_result (k, v) (parse_members n r4) = Some (ms, r)" by simp
          from cons_result_Some[OF this] obtain xs where "parse_members n r4 = Some (xs, r)"
            by auto
          from IHm[OF this] l0 l1 l2 l3 l4 show ?thesis by simp
        next
          case False
          with a \<open>skip_ws s = q # t\<close> q pc \<open>skip_ws r1 = c # r2\<close> c pv Cons
          have "r = r4" by (simp split: if_splits)
          with l0 l1 l2 l3 l4 show ?thesis by simp
        qed
      qed
    qed
  qed
  from v e m show ?case by blast
qed

lemmas value_shorter = parse_shorter[THEN conjunct1, rule_format]
lemmas elements_shorter = parse_shorter[THEN conjunct2, THEN conjunct1, rule_format]
lemmas members_shorter = parse_shorter[THEN conjunct2, THEN conjunct2, rule_format]

lemma fuel_step:
  "(\<forall>s. 2 * length s + 1 \<le> n \<longrightarrow> parse_value (Suc n) s = parse_value n s)
   \<and> (\<forall>s. 2 * length s + 2 \<le> n \<longrightarrow> parse_elements (Suc n) s = parse_elements n s)
   \<and> (\<forall>s. 2 * length s + 2 \<le> n \<longrightarrow> parse_members (Suc n) s = parse_members n s)"
proof (induction n)
  case 0
  show ?case by simp
next
  case (Suc n)
  then have IHv: "\<And>s. 2 * length s + 1 \<le> n \<Longrightarrow> parse_value (Suc n) s = parse_value n s"
    and IHe: "\<And>s. 2 * length s + 2 \<le> n \<Longrightarrow> parse_elements (Suc n) s = parse_elements n s"
    and IHm: "\<And>s. 2 * length s + 2 \<le> n \<Longrightarrow> parse_members (Suc n) s = parse_members n s"
    by blast+
  have v: "parse_value (Suc (Suc n)) s = parse_value (Suc n) s"
    if b: "2 * length s + 1 \<le> Suc n" for s
  proof (cases "skip_ws s")
    case Nil
    then show ?thesis by simp
  next
    case (Cons c t)
    note st = skip_ws_cons[OF Cons]
    show ?thesis
    proof (cases "skip_ws t")
      case Nil
      with Cons show ?thesis by simp
    next
      case (Cons d t')
      note tt = skip_ws_cons[OF Cons]
      from b st tt have "2 * length (d # t') + 2 \<le> n" by simp
      then have "parse_members (Suc n) (d # t') = parse_members n (d # t')"
        and "parse_elements (Suc n) (d # t') = parse_elements n (d # t')"
        using IHm IHe by blast+
      with \<open>skip_ws s = c # t\<close> Cons show ?thesis
        unfolding parse_value.simps(2)[of "Suc n" s] parse_value.simps(2)[of n s]
        by (auto simp del: parse_value.simps parse_elements.simps parse_members.simps)
    qed
  qed
  have e: "parse_elements (Suc (Suc n)) s = parse_elements (Suc n) s"
    if b: "2 * length s + 2 \<le> Suc n" for s
  proof -
    from b have "2 * length s + 1 \<le> n" by simp
    then have pv: "parse_value (Suc n) s = parse_value n s" by (rule IHv)
    show ?thesis
    proof (cases "parse_value n s")
      case None
      with pv show ?thesis by simp
    next
      case (Some a)
      obtain v r where a: "a = (v, r)" by (cases a)
      from value_shorter[of n s v r] Some a have l1: "length r < length s" by simp
      show ?thesis
      proof (cases "skip_ws r")
        case Nil
        with pv Some a show ?thesis by simp
      next
        case (Cons c r')
        note l2 = skip_ws_cons[OF Cons]
        from b l1 l2 have "2 * length r' + 2 \<le> n" by simp
        then have "parse_elements (Suc n) r' = parse_elements n r'" by (rule IHe)
        with pv Some a Cons show ?thesis
          unfolding parse_elements.simps(2)[of "Suc n" s] parse_elements.simps(2)[of n s]
          by (auto simp del: parse_value.simps parse_elements.simps parse_members.simps)
      qed
    qed
  qed
  have m: "parse_members (Suc (Suc n)) s = parse_members (Suc n) s"
    if b: "2 * length s + 2 \<le> Suc n" for s
  proof (cases "skip_ws s")
    case Nil
    then show ?thesis by simp
  next
    case (Cons q t)
    note l0 = skip_ws_cons[OF Cons]
    show ?thesis
    proof (cases "parse_chars t")
      case None
      with Cons show ?thesis by simp
    next
      case (Some a)
      obtain k r1 where a: "a = (k, r1)" by (cases a)
      from parse_chars_shorter[of t k r1] Some a have l1: "length r1 < length t" by simp
      show ?thesis
      proof (cases "skip_ws r1")
        case Nil
        with \<open>skip_ws s = q # t\<close> Some a show ?thesis by simp
      next
        case (Cons c r2)
        note l2 = skip_ws_cons[OF Cons]
        from b l0 l1 l2 have "2 * length r2 + 1 \<le> n" by simp
        then have pv: "parse_value (Suc n) r2 = parse_value n r2" by (rule IHv)
        show ?thesis
        proof (cases "parse_value n r2")
          case None
          with pv \<open>skip_ws s = q # t\<close> Some a Cons show ?thesis by simp
        next
          case (Some a')
          obtain v r3 where a': "a' = (v, r3)" by (cases a')
          from value_shorter[of n r2 v r3] Some a' have l3: "length r3 < length r2" by simp
          show ?thesis
          proof (cases "skip_ws r3")
            case Nil
            with pv \<open>skip_ws s = q # t\<close> \<open>parse_chars t = Some a\<close> a \<open>skip_ws r1 = c # r2\<close>
              Some a' show ?thesis by simp
          next
            case (Cons c' r4)
            note l4 = skip_ws_cons[OF Cons]
            from b l0 l1 l2 l3 l4 have "2 * length r4 + 2 \<le> n" by simp
            then have "parse_members (Suc n) r4 = parse_members n r4" by (rule IHm)
            with pv \<open>skip_ws s = q # t\<close> \<open>parse_chars t = Some a\<close> a \<open>skip_ws r1 = c # r2\<close>
              Some a' Cons show ?thesis
              unfolding parse_members.simps(2)[of "Suc n" s] parse_members.simps(2)[of n s]
              by (auto simp del: parse_value.simps parse_elements.simps parse_members.simps)
          qed
        qed
      qed
    qed
  qed
  from v e m show ?case by blast
qed

lemma more_fuel:
  "2 * length s + 1 \<le> n \<Longrightarrow> parse_value (n + k) s = parse_value n s"
proof (induction k)
  case 0
  show ?case by simp
next
  case (Suc k)
  then have "2 * length s + 1 \<le> n + k" by simp
  with fuel_step[of "n + k"] have "parse_value (Suc (n + k)) s = parse_value (n + k) s"
    by blast
  with Suc show ?case by simp
qed

text \<open>
  With any fuel from twice the length of the text and two, the parser gives the result of
  \<open>JSON_parse\<close>: a \<open>SyntaxError\<close> is a syntax error of the text, never a lack of fuel.
\<close>

lemma parse_text_fuel:
  "2 * length raw + 2 \<le> n \<Longrightarrow> parse_text n raw = JSON_parse raw"
proof -
  assume "2 * length raw + 2 \<le> n"
  then obtain k where "n = (2 * length raw + 2) + k"
    using le_Suc_ex by blast
  then show ?thesis
    using more_fuel[of raw "2 * length raw + 2" k]
    by (simp add: JSON_parse_def parse_text_def del: parse_value.simps)
qed

subsection \<open>Evaluating the parser on a text\<close>

lemmas parse_value_numeral =
  parse_value.simps(2)[of "pred_numeral k" for k, folded numeral_eq_Suc]

lemmas parse_elements_numeral =
  parse_elements.simps(2)[of "pred_numeral k" for k, folded numeral_eq_Suc]

lemmas parse_members_numeral =
  parse_members.simps(2)[of "pred_numeral k" for k, folded numeral_eq_Suc]

lemma JSON_parse_truncated: "JSON_parse (js ''[{'') = Inl SyntaxError"
  by (simp add: JSON_parse_def parse_text_def js_def parse_value_numeral parse_elements_numeral
      parse_members_numeral skip_ws_def is_json_ws_def map_value_def)

lemma JSON_parse_garbage: "JSON_parse (js ''{nope'') = Inl SyntaxError"
  by (simp add: JSON_parse_def parse_text_def js_def parse_value_numeral parse_elements_numeral
      parse_members_numeral skip_ws_def is_json_ws_def map_value_def)

lemma JSON_parse_null: "JSON_parse (js ''null'') = Inr JNull"
  by (simp add: JSON_parse_def parse_text_def js_def parse_value_numeral skip_ws_def
      is_json_ws_def with_value_def)

text \<open>
  An entry written by hand, with white space, another order of the properties and a
  timestamp in exponent notation, is read as the conversation it denotes.
\<close>

lemma initial_msgs_example:
  "initial_msgs (ls_absent(LS_KEY \<mapsto>
       json_text '' [ {`role`: `user`, `ts`: 1.5e1, `text`: `qA`, `id`: `a`} ] ''))
     = Some [User (js ''a'') (js ''qA'') 15]"
  by (simp add: initial_msgs_def load_def load_try_def truthy_def json_text_def
      JSON_parse_def parse_text_def js_def parse_value_numeral parse_elements_numeral
      parse_members_numeral skip_ws_def is_json_ws_def with_value_def map_value_def cons_result_def
      parse_number_def parse_unsigned_def parse_int_part_def parse_frac_def parse_exp_def
      parse_exp_digits_def is_digit_def digits_val_def hex4_def hex_val_def unescape_def
      as_ChatMsgs_def as_ChatMsg_def property_def as_string_def as_int_def)

subsection \<open>Evaluating \<open>JSON.stringify\<close> on a conversation\<close>

lemmas show_nat_numeral =
  show_nat.simps[of "numeral k" for k] show_nat.simps[of 1] show_nat.simps[of 0]

lemma JSON_stringify_example:
  "JSON_stringify (json_of_msgs [User (js ''m1'') (js ''hi'') 42,
      Assistant (js ''m2'') [] (-7) (Some [\<lparr>src_id = js ''d'', key = js ''k''\<rparr>]) None])
   = json_text ''[{`id`:`m1`,`role`:`user`,`text`:`hi`,`ts`:42},{`id`:`m2`,`role`:`assistant`,`text`:``,`ts`:-7,`sources`:[{`id`:`d`,`key`:`k`}]}]''"
  by (simp add: json_of_msgs_def json_of_Source_def QuoteJSONString_def js_def show_int_def
      show_nat_numeral digit_char_def json_text_def is_high_def is_low_def)

subsection \<open>Loading and saving\<close>

text \<open>
  C3. Whatever local storage holds, \<open>load\<close> returns a value; when the entry is absent, or
  is malformed in that \<open>JSON.parse\<close> throws on it, that value is the empty array, which
  is the empty message sequence. The exception ends in the \<open>catch\<close> of the initializer:
  \<open>load_try\<close> has it, \<open>load\<close> does not.
\<close>

theorem load_absent_or_malformed:
  "ls LS_KEY = None \<or> (\<exists>raw. ls LS_KEY = Some raw \<and> JSON_parse raw = Inl SyntaxError)
   \<Longrightarrow> load ls = JArr [] \<and> initial_msgs ls = Some []"
  by (auto simp: load_def load_try_def initial_msgs_def as_ChatMsgs_def)

theorem load_absent_or_malformed_witness:
  "ls_absent LS_KEY = None
   \<and> load ls_absent = JArr [] \<and> initial_msgs ls_absent = Some []
   \<and> ls_corrupt LS_KEY = Some (js ''[{'')
   \<and> load_try ls_corrupt = Inl SyntaxError
   \<and> load ls_corrupt = JArr [] \<and> initial_msgs ls_corrupt = Some []"
proof -
  have a: "ls_absent LS_KEY = None"
    by (simp add: ls_absent_def)
  have c: "ls_corrupt LS_KEY = Some (js ''[{'')"
    by (simp add: ls_corrupt_def)
  have "truthy (js ''[{'')"
    by (simp add: truthy_def js_def)
  then have t: "load_try ls_corrupt = Inl SyntaxError"
    by (simp add: load_try_def c JSON_parse_truncated)
  from c JSON_parse_truncated
  have m: "ls_corrupt LS_KEY = None
      \<or> (\<exists>raw. ls_corrupt LS_KEY = Some raw \<and> JSON_parse raw = Inl SyntaxError)"
    by blast
  from a have n: "ls_absent LS_KEY = None
      \<or> (\<exists>raw. ls_absent LS_KEY = Some raw \<and> JSON_parse raw = Inl SyntaxError)"
    by blast
  from load_absent_or_malformed [of ls_absent, OF n]
    load_absent_or_malformed [of ls_corrupt, OF m] a c t
  show ?thesis by blast
qed

text \<open>
  An entry that parses is returned as it is, whatever its shape; it is the conversation
  only when it has the shape of one.
\<close>

lemma load_wellformed:
  "ls LS_KEY = Some raw \<Longrightarrow> raw \<noteq> [] \<Longrightarrow> JSON_parse raw = Inr v \<Longrightarrow> load ls = v"
  by (simp add: load_def load_try_def truthy_def)

lemma load_null_entry:
  "load (ls_absent(LS_KEY \<mapsto> js ''null'')) = JNull
   \<and> initial_msgs (ls_absent(LS_KEY \<mapsto> js ''null'')) = None"
proof -
  have ne: "js ''null'' \<noteq> []"
    by (simp add: js_def)
  have "load (ls_absent(LS_KEY \<mapsto> js ''null'')) = JNull"
    by (rule load_wellformed[where raw = "js ''null''"]) (simp_all add: JSON_parse_null ne)
  then show ?thesis
    by (simp add: initial_msgs_def as_ChatMsgs_def)
qed

text \<open>
  C5. Saving a conversation and loading it back gives the same messages in the same
  order, for every conversation and every previous content of the storage. Saving the
  same conversation again leaves the storage as it is, and loading again gives the same
  conversation: repeated save and load change nothing.
\<close>

theorem persist_load_roundtrip:
  "initial_msgs (persist ms ls) = Some ms
   \<and> load_try (persist ms ls) = Inr (map_json of_int (json_of_msgs ms))
   \<and> persist ms (persist ms ls) = persist ms ls
   \<and> initial_msgs (persist ms (persist ms ls)) = Some ms"
  by (simp add: initial_msgs_def load_def load_try_def persist_def stringify_truthy
      JSON_parse_stringify as_ChatMsgs_json)

theorem persist_load_roundtrip_witness:
  "initial_msgs (persist [u1, a1] ls_corrupt) = Some [u1, a1]
   \<and> initial_msgs (persist [] ls_absent) = Some []"
  using persist_load_roundtrip [of "[u1, a1]" ls_corrupt] persist_load_roundtrip [of "[]" ls_absent]
  by simp

end
